theory Spec2Isabelle
  imports Complex_Main "HOL-Library.AList"
begin

section \<open>Python values used by \<open>miditok/bpe.py\<close>\<close>

text \<open>
  The module \<open>miditok/bpe.py\<close> wraps a tokenizer with Byte Pair Encoding. Tokens are
  Python integers, token sequences are Python lists, the vocabulary holds two
  dictionaries between tokens and descriptor strings such as \<open>Pitch_60\<close> or
  \<open>BPE_0-1.0-1\<close>. Every exception the code can raise is a value of \<open>py_error\<close>; a
  computation that can raise returns \<open>py_error + 'a\<close>, with \<open>Inl\<close> for the exception.
\<close>

datatype py_error = AssertionError | KeyError | ValueError | IndexError | ZeroDivisionError

type_synonym token = int

subsection \<open>Dictionaries\<close>

text \<open>
  A Python \<open>dict\<close> keeps its keys in insertion order and the order is observable
  (\<open>max\<close> over a dict, the iteration over \<open>bpe_successions\<close>), so a dict is an
  association list with distinct keys. \<open>d[k] = v\<close> is \<open>AList.update k v d\<close>: an
  existing key keeps its position, a new key goes to the end. \<open>d[k]\<close> raises
  \<open>KeyError\<close> on a missing key.
\<close>

type_synonym ('k, 'v) dict = "('k \<times> 'v) list"

definition dict_get :: "('k, 'v) dict \<Rightarrow> 'k \<Rightarrow> py_error + 'v" where
  "dict_get d k = (case map_of d k of None \<Rightarrow> Inl KeyError | Some v \<Rightarrow> Inr v)"

definition dict_set :: "('k, 'v) dict \<Rightarrow> 'k \<Rightarrow> 'v \<Rightarrow> ('k, 'v) dict" where
  "dict_set d k v = AList.update k v d"

definition dict_keys :: "('k, 'v) dict \<Rightarrow> 'k list" where
  "dict_keys d = map fst d"

subsection \<open>Lists\<close>

text \<open>
  \<open>xs[i:j]\<close> for \<open>0 \<le> i\<close> never raises; \<open>xs[i] = v\<close>, \<open>xs[i]\<close> and \<open>del xs[i]\<close> raise
  \<open>IndexError\<close> out of range; \<open>xs.insert(i, v)\<close> never raises and appends when \<open>i\<close> is
  beyond the end.
\<close>

definition slice :: "'a list \<Rightarrow> nat \<Rightarrow> nat \<Rightarrow> 'a list" where
  "slice xs i j = take (j - i) (drop i xs)"

definition list_get :: "'a list \<Rightarrow> nat \<Rightarrow> py_error + 'a" where
  "list_get xs i = (if i < length xs then Inr (xs ! i) else Inl IndexError)"

definition list_set :: "'a list \<Rightarrow> nat \<Rightarrow> 'a \<Rightarrow> py_error + 'a list" where
  "list_set xs i v = (if i < length xs then Inr (xs[i := v]) else Inl IndexError)"

definition list_del :: "'a list \<Rightarrow> nat \<Rightarrow> py_error + 'a list" where
  "list_del xs i = (if i < length xs then Inr (take i xs @ drop (Suc i) xs) else Inl IndexError)"

definition list_insert :: "'a list \<Rightarrow> nat \<Rightarrow> 'a \<Rightarrow> 'a list" where
  "list_insert xs i v = take i xs @ v # drop i xs"

subsection \<open>Strings\<close>

text \<open>
  \<open>s.split(sep)\<close> for a one-character separator cuts at every occurrence and always
  returns at least one piece; \<open>sep.join(pieces)\<close> is its inverse on pieces free of the
  separator.
\<close>

fun split :: "char \<Rightarrow> string \<Rightarrow> string list" where
  "split sep [] = [[]]"
| "split sep (c # cs) =
     (if c = sep then [] # split sep cs
      else (case split sep cs of [] \<Rightarrow> [[c]] | p # ps \<Rightarrow> (c # p) # ps))"

fun join :: "string \<Rightarrow> string list \<Rightarrow> string" where
  "join sep [] = []"
| "join sep [s] = s"
| "join sep (s # t # ss) = s @ sep @ join sep (t # ss)"

text \<open>
  \<open>str(n)\<close> of an integer is its decimal numeral, with a leading minus sign when
  negative. \<open>int(s)\<close> is modelled on the signed ASCII decimal numerals (an optional
  sign, then one or more digits); every other string raises \<open>ValueError\<close>. (Python's
  \<open>int\<close> also accepts surrounding whitespace and underscores between digits; no string
  written by \<open>str\<close> has either.)
\<close>

definition digit_char :: "nat \<Rightarrow> char" where
  "digit_char d = char_of (48 + d)"

fun str_nat :: "nat \<Rightarrow> string" where
  "str_nat n = (if n < 10 then [digit_char n] else str_nat (n div 10) @ [digit_char (n mod 10)])"

declare str_nat.simps [simp del]

definition str :: "int \<Rightarrow> string" where
  "str i = (if i < 0 then CHR ''-'' # str_nat (nat (- i)) else str_nat (nat i))"

definition is_digit :: "char \<Rightarrow> bool" where
  "is_digit c = (48 \<le> (of_char c :: nat) \<and> (of_char c :: nat) \<le> 57)"

definition digit_val :: "char \<Rightarrow> nat" where
  "digit_val c = of_char c - 48"

fun nat_of_digits :: "nat \<Rightarrow> string \<Rightarrow> py_error + nat" where
  "nat_of_digits acc [] = Inr acc"
| "nat_of_digits acc (c # cs) =
     (if is_digit c then nat_of_digits (10 * acc + digit_val c) cs else Inl ValueError)"

definition nat_of_str :: "string \<Rightarrow> py_error + nat" where
  "nat_of_str s = (if s = [] then Inl ValueError else nat_of_digits 0 s)"

definition int_of_str :: "string \<Rightarrow> py_error + int" where
  "int_of_str s =
     (case s of
        [] \<Rightarrow> Inl ValueError
      | c # cs \<Rightarrow>
          if c = CHR ''-'' then (case nat_of_str cs of Inl e \<Rightarrow> Inl e | Inr n \<Rightarrow> Inr (- int n))
          else if c = CHR ''+'' then (case nat_of_str cs of Inl e \<Rightarrow> Inl e | Inr n \<Rightarrow> Inr (int n))
          else (case nat_of_str s of Inl e \<Rightarrow> Inl e | Inr n \<Rightarrow> Inr (int n)))"

text \<open>\<open>list(map(int, pieces))\<close>: the first piece that does not parse raises.\<close>

fun map_int :: "string list \<Rightarrow> py_error + int list" where
  "map_int [] = Inr []"
| "map_int (s # ss) =
     (case int_of_str s of
        Inl e \<Rightarrow> Inl e
      | Inr n \<Rightarrow> (case map_int ss of Inl e \<Rightarrow> Inl e | Inr ns \<Rightarrow> Inr (n # ns)))"

section \<open>The vocabulary\<close>

text \<open>
  Modelled from the spec: the classes \<open>Event\<close> and \<open>Vocabulary\<close> live in
  \<open>miditok/vocabulary.py\<close>, which is not part of the sources at hand; \<open>bpe.py\<close> only
  uses them. The spec (sections 3 and 4.1) gives: an event has a type, a time, a value
  and a description, and its descriptor string is \<open><EventType>_<EventValue>\<close>; the
  vocabulary owns the two directions of the token/descriptor bijection and a cached
  index from category name to the tokens of that category.
\<close>

record Event =
  ev_type :: string
  ev_time :: int
  ev_value :: string
  ev_desc :: string

definition str_event :: "Event \<Rightarrow> string" where
  "str_event e = ev_type e @ ''_'' @ ev_value e"

record Vocabulary =
  event_to_token :: "(string, token) dict"
  token_to_event :: "(token, string) dict"
  token_types_indexes :: "(string, token list) dict"

text \<open>
  Modelled from the spec: \<open>tokens_of_type(category)\<close> returns the cached index for
  that category (no token when the category is unknown: \<open>load_params\<close> takes its
  length on a vocabulary without merged tokens).
\<close>

definition tokens_of_type :: "Vocabulary \<Rightarrow> string \<Rightarrow> token list" where
  "tokens_of_type v category =
     (case map_of (token_types_indexes v) category of None \<Rightarrow> [] | Some ts \<Rightarrow> ts)"

text \<open>Modelled from the spec: \<open>size()\<close>, Python's \<open>len(vocab)\<close>, is the number of
  descriptors of the bijection.\<close>

definition len_vocab :: "Vocabulary \<Rightarrow> nat" where
  "len_vocab v = length (event_to_token v)"

text \<open>
  Modelled from the spec: \<open>add_event(event)\<close> "assigns the next unused integer id,
  inserts both directions of the bijection" and "fails if an event with an identical
  descriptor already exists". Tokens are numbered from 0 without gaps and never
  renumbered, so the next unused id is the number of tokens. The new token joins the
  cached index of its category.
\<close>

definition add_event :: "Vocabulary \<Rightarrow> Event \<Rightarrow> py_error + Vocabulary" where
  "add_event v e =
     (let event = str_event e in
      if event \<in> set (dict_keys (event_to_token v)) then Inl AssertionError
      else
        let index = int (length (token_to_event v)) in
        Inr (v\<lparr>event_to_token := dict_set (event_to_token v) event index,
               token_to_event := dict_set (token_to_event v) index event,
               token_types_indexes :=
                 dict_set (token_types_indexes v) (ev_type e)
                   (tokens_of_type v (ev_type e) @ [index])\<rparr>))"

text \<open>
  Modelled from the spec: \<open>rebuild_indexes()\<close>, named \<open>update_token_types_indexes\<close> in
  \<open>bpe.py\<close>, recomputes the category index from the bijection; the category of a
  descriptor is what stands before its first underscore.
\<close>

definition index_event :: "string \<times> token \<Rightarrow> (string, token list) dict \<Rightarrow> (string, token list) dict" where
  "index_event p idx =
     (let token_type = hd (split (CHR ''_'') (fst p)) in
      dict_set idx token_type
        ((case map_of idx token_type of None \<Rightarrow> [] | Some ts \<Rightarrow> ts) @ [snd p]))"

definition update_token_types_indexes :: "Vocabulary \<Rightarrow> Vocabulary" where
  "update_token_types_indexes v =
     v\<lparr>token_types_indexes := fold index_event (event_to_token v) []\<rparr>"

section \<open>The BPE wrapper\<close>

text \<open>
  The state of a \<open>BPE\<close> object, as far as \<open>bpe.py\<close> reads or writes it: the flag
  \<open>has_bpe\<close>, the vocabulary, the merge table \<open>bpe_successions\<close> (merged token to the
  succession it replaces, in the dict's insertion order) and the base tokenizer's
  \<open>tokens_types_graph\<close>.
\<close>

record BPE =
  has_bpe :: bool
  vocab :: Vocabulary
  bpe_successions :: "(token, token list) dict"
  tokens_types_graph :: "(string, string list) dict"

subsection \<open>\<open>set_bpe_tokens_successions\<close>\<close>

text \<open>
  \<^verbatim>\<open>self.bpe_successions = {tok: list(map(int, self.vocab.token_to_event[tok]
      .split('_')[1].split('.')[0].split('-'))) for tok in self.vocab.tokens_of_type('BPE')}\<close>
\<close>

definition succession_of_event :: "string \<Rightarrow> py_error + token list" where
  "succession_of_event event =
     (case list_get (split (CHR ''_'') event) 1 of
        Inl e \<Rightarrow> Inl e
      | Inr v \<Rightarrow>
          (case list_get (split (CHR ''.'') v) 0 of
             Inl e \<Rightarrow> Inl e
           | Inr s \<Rightarrow> map_int (split (CHR ''-'') s)))"

fun successions_of :: "Vocabulary \<Rightarrow> token list \<Rightarrow> (token, token list) dict \<Rightarrow> py_error + (token, token list) dict" where
  "successions_of v [] d = Inr d"
| "successions_of v (tok # toks) d =
     (case dict_get (token_to_event v) tok of
        Inl e \<Rightarrow> Inl e
      | Inr event \<Rightarrow>
          (case succession_of_event event of
             Inl e \<Rightarrow> Inl e
           | Inr token_succession \<Rightarrow> successions_of v toks (dict_set d tok token_succession)))"

definition set_bpe_tokens_successions :: "BPE \<Rightarrow> py_error + BPE" where
  "set_bpe_tokens_successions self =
     (case successions_of (vocab self) (tokens_of_type (vocab self) ''BPE'') [] of
        Inl e \<Rightarrow> Inl e
      | Inr d \<Rightarrow> Inr (self\<lparr>bpe_successions := d\<rparr>))"

subsection \<open>\<open>add_bpe_to_tokens_type_graph\<close>\<close>

text \<open>
  \<^verbatim>\<open>for val in self.tokens_types_graph.values(): val.append('BPE')
  self.tokens_types_graph['BPE'] = list(self.tokens_types_graph.keys())\<close>
\<close>

definition add_bpe_to_tokens_type_graph :: "BPE \<Rightarrow> BPE" where
  "add_bpe_to_tokens_type_graph self =
     (let g = map (\<lambda>(k, val). (k, val @ [''BPE''])) (tokens_types_graph self) in
      self\<lparr>tokens_types_graph := dict_set g ''BPE'' (dict_keys g)\<rparr>)"

subsection \<open>\<open>apply_bpe\<close>\<close>

text \<open>
  The inner loops of \<open>apply_bpe\<close>, on the value of the list \<open>tokens\<close>.
  \<open>del_next n tokens i\<close> is \<^verbatim>\<open>for _ in range(n): del tokens[i + 1]\<close>.
\<close>

fun del_next :: "nat \<Rightarrow> token list \<Rightarrow> nat \<Rightarrow> py_error + token list" where
  "del_next 0 tokens i = Inr tokens"
| "del_next (Suc n) tokens i =
     (case list_del tokens (i + 1) of
        Inl e \<Rightarrow> Inl e
      | Inr tokens' \<Rightarrow> del_next n tokens' i)"

lemma del_next_length:
  "del_next n tokens i = Inr tokens' \<Longrightarrow> length tokens' = length tokens - n"
  by (induction n arbitrary: tokens)
     (auto simp: list_del_def split: sum.splits if_splits)

lemma list_set_length: "list_set xs i v = Inr ys \<Longrightarrow> length ys = length xs"
  by (auto simp: list_set_def split: if_splits)

text \<open>
  \<^verbatim>\<open>while i <= len(tokens) - len(token_succession):
      if tokens[i:i + len(token_succession)] == token_succession:
          tokens[i] = tok
          for _ in range(len(token_succession) - 1):
              del tokens[i + 1]
      i += 1\<close>
\<close>

function apply_succession :: "token \<Rightarrow> token list \<Rightarrow> token list \<Rightarrow> nat \<Rightarrow> py_error + token list" where
  "apply_succession tok token_succession tokens i =
     (if int i \<le> int (length tokens) - int (length token_succession) then
        (if slice tokens i (i + length token_succession) = token_succession then
           (case list_set tokens i tok of
              Inl e \<Rightarrow> Inl e
            | Inr tokens1 \<Rightarrow>
                (case del_next (length token_succession - 1) tokens1 i of
                   Inl e \<Rightarrow> Inl e
                 | Inr tokens2 \<Rightarrow> apply_succession tok token_succession tokens2 (i + 1)))
         else apply_succession tok token_succession tokens (i + 1))
      else Inr tokens)"
  by pat_completeness auto
termination
proof (relation "measure (\<lambda>(tok, token_succession, tokens, i). length tokens + 1 - i)")
  show "wf (measure (\<lambda>(tok, token_succession, tokens, i). length tokens + 1 - i))"
    by simp
next
  fix tok :: token and token_succession tokens :: "token list" and i :: nat
    and tokens1 tokens2 :: "token list"
  assume le: "int i \<le> int (length tokens) - int (length token_succession)"
    and s: "list_set tokens i tok = Inr tokens1"
    and d: "del_next (length token_succession - 1) tokens1 i = Inr tokens2"
  have "length tokens2 \<le> length tokens"
    using list_set_length [OF s] del_next_length [OF d] by simp
  moreover have "i \<le> length tokens" using le by linarith
  ultimately show "((tok, token_succession, tokens2, i + 1), (tok, token_succession, tokens, i))
      \<in> measure (\<lambda>(tok, token_succession, tokens, i). length tokens + 1 - i)"
    by simp
next
  fix tok :: token and token_succession tokens :: "token list" and i :: nat
  assume "int i \<le> int (length tokens) - int (length token_succession)"
  then have "i \<le> length tokens" by linarith
  then show "((tok, token_succession, tokens, i + 1), (tok, token_succession, tokens, i))
      \<in> measure (\<lambda>(tok, token_succession, tokens, i). length tokens + 1 - i)"
    by simp
qed

declare apply_succession.simps [simp del]

text \<open>\<^verbatim>\<open>for tok, token_succession in self.bpe_successions.items(): i = 0; while ...\<close>\<close>

fun apply_round :: "(token, token list) dict \<Rightarrow> token list \<Rightarrow> py_error + token list" where
  "apply_round [] tokens = Inr tokens"
| "apply_round ((tok, token_succession) # items) tokens =
     (case apply_succession tok token_succession tokens 0 of
        Inl e \<Rightarrow> Inl e
      | Inr tokens' \<Rightarrow> apply_round items tokens')"

lemma apply_succession_length:
  "apply_succession tok token_succession tokens i = Inr tokens' \<Longrightarrow> length tokens' \<le> length tokens"
proof (induction tok token_succession tokens i rule: apply_succession.induct)
  case (1 tok token_succession tokens i)
  show ?case
  proof (cases "int i \<le> int (length tokens) - int (length token_succession)")
    case False
    with "1.prems" show ?thesis by (simp add: apply_succession.simps)
  next
    case le: True
    show ?thesis
    proof (cases "slice tokens i (i + length token_succession) = token_succession")
      case False
      with le "1.prems" "1.IH"(2) show ?thesis
        by (simp add: apply_succession.simps [of tok token_succession tokens i])
    next
      case m: True
      from le m "1.prems" obtain tokens1 tokens2 where
        s: "list_set tokens i tok = Inr tokens1" and
        d: "del_next (length token_succession - 1) tokens1 i = Inr tokens2" and
        r: "apply_succession tok token_succession tokens2 (i + 1) = Inr tokens'"
        by (auto simp: apply_succession.simps [of tok token_succession tokens i]
            split: sum.splits)
      have "length tokens' \<le> length tokens2"
        using "1.IH"(1) [OF le m s d r] .
      also have "length tokens2 \<le> length tokens"
        using list_set_length [OF s] del_next_length [OF d] by simp
      finally show ?thesis .
    qed
  qed
qed

lemma apply_round_length:
  "apply_round items tokens = Inr tokens' \<Longrightarrow> length tokens' \<le> length tokens"
proof (induction items arbitrary: tokens)
  case Nil
  then show ?case by simp
next
  case (Cons item items)
  obtain tok token_succession where item: "item = (tok, token_succession)"
    by (cases item)
  from Cons.prems obtain tokens1 where
    a: "apply_succession tok token_succession tokens 0 = Inr tokens1" and
    b: "apply_round items tokens1 = Inr tokens'"
    by (auto simp: item split: sum.splits)
  show ?case
    using apply_succession_length [OF a] Cons.IH [OF b] by simp
qed

text \<open>
  \<^verbatim>\<open>previous_len = len(tokens) + 1
  while previous_len != len(tokens):
      previous_len = len(tokens)
      for tok, token_succession in self.bpe_successions.items(): ...\<close>
\<close>

function apply_loop :: "(token, token list) dict \<Rightarrow> nat \<Rightarrow> token list \<Rightarrow> py_error + token list" where
  "apply_loop successions previous_len tokens =
     (if previous_len \<noteq> length tokens then
        (case apply_round successions tokens of
           Inl e \<Rightarrow> Inl e
         | Inr tokens' \<Rightarrow> apply_loop successions (length tokens) tokens')
      else Inr tokens)"
  by pat_completeness auto
termination
proof (relation "measure (\<lambda>(successions, previous_len, tokens).
    length tokens + (if previous_len \<noteq> length tokens then 1 else 0))")
  show "wf (measure (\<lambda>(successions, previous_len, tokens).
    length tokens + (if previous_len \<noteq> length tokens then 1 else 0)))"
    by simp
next
  fix successions :: "(token, token list) dict" and previous_len :: nat
    and tokens tokens' :: "token list"
  assume "previous_len \<noteq> length tokens" and r: "apply_round successions tokens = Inr tokens'"
  then show "((successions, length tokens, tokens'), (successions, previous_len, tokens))
      \<in> measure (\<lambda>(successions, previous_len, tokens).
          length tokens + (if previous_len \<noteq> length tokens then 1 else 0))"
    using apply_round_length [OF r] by auto
qed

declare apply_loop.simps [simp del]

definition apply_bpe :: "BPE \<Rightarrow> token list \<Rightarrow> py_error + token list" where
  "apply_bpe self tokens =
     (if \<not> has_bpe self then Inr tokens
      else apply_loop (bpe_successions self) (length tokens + 1) tokens)"

subsection \<open>\<open>decompose_bpe\<close>\<close>

text \<open>
  Modelled from the spec: \<open>self.vocab[token]\<close> for an integer is \<open>lookup(token)\<close>,
  which "fails with a NotFound condition if the key is absent"; likewise
  \<open>self.vocab[descriptor]\<close> for a string.
\<close>

definition vocab_getitem_int :: "Vocabulary \<Rightarrow> token \<Rightarrow> py_error + string" where
  "vocab_getitem_int v tok = dict_get (token_to_event v) tok"

definition vocab_getitem_str :: "Vocabulary \<Rightarrow> string \<Rightarrow> py_error + token" where
  "vocab_getitem_str v event = dict_get (event_to_token v) event"

text \<open>\<^verbatim>\<open>token_type, token_val = pieces\<close> raises \<open>ValueError\<close> unless there are exactly
  two pieces.\<close>

definition unpack2 :: "'a list \<Rightarrow> py_error + ('a \<times> 'a)" where
  "unpack2 pieces = (case pieces of [a, b] \<Rightarrow> Inr (a, b) | _ \<Rightarrow> Inl ValueError)"

text \<open>\<^verbatim>\<open>map(int, token_val.split('.')[1].split('-'))\<close>: the full decomposition written
  in a merged token's descriptor.\<close>

definition decomposition_of_val :: "string \<Rightarrow> py_error + token list" where
  "decomposition_of_val token_val =
     (case list_get (split (CHR ''.'') token_val) 1 of
        Inl e \<Rightarrow> Inl e
      | Inr s \<Rightarrow> map_int (split (CHR ''-'') s))"

text \<open>\<^verbatim>\<open>for j, to_insert in enumerate(...): tokens.insert(i + j, to_insert)\<close>\<close>

fun insert_all :: "token list \<Rightarrow> nat \<Rightarrow> token list \<Rightarrow> token list" where
  "insert_all tokens i [] = tokens"
| "insert_all tokens i (to_insert # rest) = insert_all (list_insert tokens i to_insert) (i + 1) rest"

text \<open>
  \<^verbatim>\<open>i = 0
  while i < len(tokens):
      token_type, token_val = self.vocab[tokens[i]].split('_')
      if token_type == 'BPE':
          del tokens[i]
          for j, to_insert in enumerate(map(int, token_val.split('.')[1].split('-'))):
              tokens.insert(i + j, to_insert)
      i += 1
  return tokens\<close>
  The list can grow while \<open>i\<close> advances, and on a vocabulary whose decompositions
  mention merged tokens the loop need not end: not returning is the value \<open>None\<close>.
\<close>

partial_function (option) decompose_loop :: "Vocabulary \<Rightarrow> token list \<Rightarrow> nat \<Rightarrow> (py_error + token list) option" where
  "decompose_loop v tokens i =
     (if i < length tokens then
        (case vocab_getitem_int v (tokens ! i) of
           Inl e \<Rightarrow> Some (Inl e)
         | Inr event \<Rightarrow>
             (case unpack2 (split (CHR ''_'') event) of
                Inl e \<Rightarrow> Some (Inl e)
              | Inr (token_type, token_val) \<Rightarrow>
                  if token_type = ''BPE'' then
                    (case list_del tokens i of
                       Inl e \<Rightarrow> Some (Inl e)
                     | Inr tokens1 \<Rightarrow>
                         (case decomposition_of_val token_val of
                            Inl e \<Rightarrow> Some (Inl e)
                          | Inr to_insert \<Rightarrow>
                              decompose_loop v (insert_all tokens1 i to_insert) (i + 1)))
                  else decompose_loop v tokens (i + 1)))
      else Some (Inr tokens))"

declare decompose_loop.simps [code]

definition decompose_bpe :: "BPE \<Rightarrow> token list \<Rightarrow> (py_error + token list) option" where
  "decompose_bpe self tokens = decompose_loop (vocab self) tokens 0"

subsection \<open>\<open>bpe\<close>: learning the merges\<close>

text \<open>
  The corpus: \<open>samples\<close> is the list of loaded token files, each with its tracks
  (\<open>sample['tokens']\<close>); the field \<open>programs\<close> is only written back to disk. Reading the
  files, the progress bar, \<open>print\<close> and \<open>save_params\<close> are input and output around the
  algorithm; the model starts from \<open>samples\<close> as loaded.
\<close>

type_synonym track = "token list"
type_synonym sample = "track list"

text \<open>
  \<^verbatim>\<open>for i in range(len(track) - 1):
      try: occurrences[tuple(track[i: i + 2])] += 1
      except KeyError: occurrences[tuple(track[i: i + 2])] = 1\<close>
\<close>

definition count_pair :: "track \<Rightarrow> nat \<Rightarrow> (token list, nat) dict \<Rightarrow> (token list, nat) dict" where
  "count_pair track i occurrences =
     (let key = slice track i (i + 2) in
      case map_of occurrences key of
        Some n \<Rightarrow> dict_set occurrences key (n + 1)
      | None \<Rightarrow> dict_set occurrences key 1)"

definition count_track :: "track \<Rightarrow> (token list, nat) dict \<Rightarrow> (token list, nat) dict" where
  "count_track track occurrences = fold (count_pair track) [0..<length track - 1] occurrences"

definition count_occurrences :: "sample list \<Rightarrow> (token list, nat) dict" where
  "count_occurrences samples = fold (\<lambda>sample. fold count_track sample) samples []"

text \<open>
  \<^verbatim>\<open>max(occurrences, key=occurrences.get)\<close>: the first key, in the dict's order, whose
  count no other key exceeds; \<open>ValueError\<close> on an empty dict.
\<close>

fun max_from :: "'k \<times> nat \<Rightarrow> ('k, nat) dict \<Rightarrow> 'k" where
  "max_from (best, m) [] = best"
| "max_from (best, m) ((k, n) # rest) =
     (if m < n then max_from (k, n) rest else max_from (best, m) rest)"

definition max_occurrences :: "('k, nat) dict \<Rightarrow> py_error + 'k" where
  "max_occurrences occurrences =
     (case occurrences of [] \<Rightarrow> Inl ValueError | first # rest \<Rightarrow> Inr (max_from first rest))"

text \<open>
  \<^verbatim>\<open>for token in to_replace:
      if self.vocab.token_to_event[token].split('_')[0] == 'BPE':
          to_replace_bis += map(int, self.vocab.token_to_event[token]
                                        .split('_')[1].split('.')[1].split('-'))
      else:
          to_replace_bis.append(token)\<close>
\<close>

fun flatten_tokens :: "Vocabulary \<Rightarrow> token list \<Rightarrow> token list \<Rightarrow> py_error + token list" where
  "flatten_tokens v [] to_replace_bis = Inr to_replace_bis"
| "flatten_tokens v (token # rest) to_replace_bis =
     (case dict_get (token_to_event v) token of
        Inl e \<Rightarrow> Inl e
      | Inr event \<Rightarrow>
          (case list_get (split (CHR ''_'') event) 0 of
             Inl e \<Rightarrow> Inl e
           | Inr token_type \<Rightarrow>
               if token_type = ''BPE'' then
                 (case list_get (split (CHR ''_'') event) 1 of
                    Inl e \<Rightarrow> Inl e
                  | Inr token_val \<Rightarrow>
                      (case decomposition_of_val token_val of
                         Inl e \<Rightarrow> Inl e
                       | Inr ds \<Rightarrow> flatten_tokens v rest (to_replace_bis @ ds)))
               else flatten_tokens v rest (to_replace_bis @ [token])))"

text \<open>
  \<^verbatim>\<open>to_replace_str = '-'.join(map(str, to_replace)) + '.' + '-'.join(map(str, to_replace_bis))\<close>
\<close>

definition to_replace_str :: "token list \<Rightarrow> token list \<Rightarrow> string" where
  "to_replace_str to_replace to_replace_bis =
     join ''-'' (map str to_replace) @ ''.'' @ join ''-'' (map str to_replace_bis)"

text \<open>
  \<^verbatim>\<open>i = 0
  while i < len(track) - 1:
      if tuple(track[i: i + 2]) == to_replace:
          track[i] = self.vocab[f'BPE_{to_replace_str}']
          del track[i + 1]
      i += 1\<close>
\<close>

function replace_in_track :: "Vocabulary \<Rightarrow> string \<Rightarrow> token list \<Rightarrow> track \<Rightarrow> nat \<Rightarrow> py_error + track" where
  "replace_in_track v event to_replace track i =
     (if int i < int (length track) - 1 then
        (if slice track i (i + 2) = to_replace then
           (case vocab_getitem_str v event of
              Inl e \<Rightarrow> Inl e
            | Inr tok \<Rightarrow>
                (case list_set track i tok of
                   Inl e \<Rightarrow> Inl e
                 | Inr track1 \<Rightarrow>
                     (case list_del track1 (i + 1) of
                        Inl e \<Rightarrow> Inl e
                      | Inr track2 \<Rightarrow> replace_in_track v event to_replace track2 (i + 1))))
         else replace_in_track v event to_replace track (i + 1))
      else Inr track)"
  by pat_completeness auto
termination
  by (relation "measure (\<lambda>(v, event, to_replace, track, i). length track - i)")
     (auto simp: list_set_def list_del_def split: if_splits)

declare replace_in_track.simps [simp del]

text \<open>\<^verbatim>\<open>for sample in samples: for track in sample['tokens']: ...\<close>, stopping at the
  first exception.\<close>

fun replace_in_tracks :: "Vocabulary \<Rightarrow> string \<Rightarrow> token list \<Rightarrow> track list \<Rightarrow> py_error + track list" where
  "replace_in_tracks v event to_replace [] = Inr []"
| "replace_in_tracks v event to_replace (track # tracks) =
     (case replace_in_track v event to_replace track 0 of
        Inl e \<Rightarrow> Inl e
      | Inr track' \<Rightarrow>
          (case replace_in_tracks v event to_replace tracks of
             Inl e \<Rightarrow> Inl e
           | Inr tracks' \<Rightarrow> Inr (track' # tracks')))"

fun replace_in_samples :: "Vocabulary \<Rightarrow> string \<Rightarrow> token list \<Rightarrow> sample list \<Rightarrow> py_error + sample list" where
  "replace_in_samples v event to_replace [] = Inr []"
| "replace_in_samples v event to_replace (sample # samples) =
     (case replace_in_tracks v event to_replace sample of
        Inl e \<Rightarrow> Inl e
      | Inr sample' \<Rightarrow>
          (case replace_in_samples v event to_replace samples of
             Inl e \<Rightarrow> Inl e
           | Inr samples' \<Rightarrow> Inr (sample' # samples')))"

text \<open>One pass of the body of \<^verbatim>\<open>while len(self.vocab) < vocab_size\<close>: count, pick the
  most recurrent succession, register the merged token, rewrite the corpus.\<close>

definition bpe_event :: "string \<Rightarrow> Event" where
  "bpe_event s = \<lparr>ev_type = ''BPE'', ev_time = 0, ev_value = s, ev_desc = []\<rparr>"

definition bpe_iteration :: "BPE \<Rightarrow> sample list \<Rightarrow> py_error + (BPE \<times> sample list)" where
  "bpe_iteration self samples =
     (case max_occurrences (count_occurrences samples) of
        Inl e \<Rightarrow> Inl e
      | Inr to_replace \<Rightarrow>
          (case flatten_tokens (vocab self) to_replace [] of
             Inl e \<Rightarrow> Inl e
           | Inr to_replace_bis \<Rightarrow>
               let s = to_replace_str to_replace to_replace_bis in
               (case add_event (vocab self) (bpe_event s) of
                  Inl e \<Rightarrow> Inl e
                | Inr v \<Rightarrow>
                    (case replace_in_samples v (''BPE_'' @ s) to_replace samples of
                       Inl e \<Rightarrow> Inl e
                     | Inr samples' \<Rightarrow> Inr (self\<lparr>vocab := v\<rparr>, samples')))))"

lemma update_fresh: "k \<notin> fst ` set al \<Longrightarrow> AList.update k v al = al @ [(k, v)]"
  by (induction al) auto

lemma add_event_len:
  "add_event v e = Inr v' \<Longrightarrow> len_vocab v' = len_vocab v + 1"
  by (auto simp: add_event_def Let_def len_vocab_def dict_set_def dict_keys_def update_fresh
      split: if_splits)

lemma bpe_iteration_len:
  "bpe_iteration self samples = Inr (self', samples') \<Longrightarrow>
   len_vocab (vocab self') = len_vocab (vocab self) + 1"
  by (auto simp: bpe_iteration_def Let_def split: sum.splits dest: add_event_len)

text \<open>
  \<^verbatim>\<open>while len(self.vocab) < vocab_size: ...\<close>
\<close>

function bpe_loop :: "BPE \<Rightarrow> sample list \<Rightarrow> int \<Rightarrow> py_error + (BPE \<times> sample list)" where
  "bpe_loop self samples vocab_size =
     (if int (len_vocab (vocab self)) < vocab_size then
        (case bpe_iteration self samples of
           Inl e \<Rightarrow> Inl e
         | Inr (self', samples') \<Rightarrow> bpe_loop self' samples' vocab_size)
      else Inr (self, samples))"
  by pat_completeness auto
termination
proof (relation "measure (\<lambda>(self, samples, vocab_size). nat (vocab_size - int (len_vocab (vocab self))))")
  show "wf (measure (\<lambda>(self, samples, vocab_size). nat (vocab_size - int (len_vocab (vocab self)))))"
    by simp
next
  fix self self' :: BPE and samples samples' :: "sample list" and vocab_size :: int
    and x :: "BPE \<times> sample list"
  assume lt: "int (len_vocab (vocab self)) < vocab_size"
    and it: "bpe_iteration self samples = Inr x"
    and x: "(self', samples') = x"
  have "len_vocab (vocab self') = len_vocab (vocab self) + 1"
    using bpe_iteration_len [of self samples self' samples'] it x by simp
  with lt show "((self', samples', vocab_size), (self, samples, vocab_size))
      \<in> measure (\<lambda>(self, samples, vocab_size). nat (vocab_size - int (len_vocab (vocab self))))"
    by simp
qed

declare bpe_loop.simps [simp del]

text \<open>
  The statistics printed at the end: the mean track length before and after, and the
  variation \<^verbatim>\<open>(new_mean - original_mean) / original_mean * 100\<close>, which raises
  \<open>ZeroDivisionError\<close> when \<open>original_mean\<close> is zero. The means are Python floats; the
  model computes them as rationals (a positive integer divided by a positive integer is
  not zero in either).
\<close>

definition mean_length :: "nat list \<Rightarrow> rat" where
  "mean_length lengths =
     (if 0 < length lengths then of_nat (sum_list lengths) / of_nat (length lengths) else 0)"

definition lengths_of :: "sample list \<Rightarrow> nat list" where
  "lengths_of samples = concat (map (map length) samples)"

text \<open>
  The method \<open>bpe\<close>, from the loaded \<open>samples\<close> on: the assertion on \<open>vocab_size\<close>, the
  learning loop, then \<open>has_bpe = True\<close>, \<open>set_bpe_tokens_successions\<close>,
  \<open>add_bpe_to_tokens_type_graph\<close>, \<open>update_token_types_indexes\<close> and the statistics. It
  returns the object and the corpus as the call leaves them.
\<close>

definition bpe :: "BPE \<Rightarrow> sample list \<Rightarrow> int \<Rightarrow> py_error + (BPE \<times> sample list)" where
  "bpe self samples vocab_size =
     (if \<not> int (len_vocab (vocab self)) < vocab_size then Inl AssertionError
      else
        let original_lengths = lengths_of samples in
        (case bpe_loop self samples vocab_size of
           Inl e \<Rightarrow> Inl e
         | Inr (self1, samples') \<Rightarrow>
             (case set_bpe_tokens_successions (self1\<lparr>has_bpe := True\<rparr>) of
                Inl e \<Rightarrow> Inl e
              | Inr self2 \<Rightarrow>
                  let self3 = add_bpe_to_tokens_type_graph self2;
                      self4 = self3\<lparr>vocab := update_token_types_indexes (vocab self3)\<rparr>;
                      new_lengths = lengths_of samples';
                      original_mean = mean_length original_lengths;
                      new_mean = mean_length new_lengths
                  in if original_mean = 0 then Inl ZeroDivisionError
                     else Inr (self4, samples'))))"

subsection \<open>\<open>load_params\<close>\<close>

text \<open>
  The branch of \<open>load_params\<close> for the key \<open>token_to_event\<close>, whose value \<open>items\<close> is
  the serialized bijection (token, as a JSON key, to descriptor); the other keys set
  attributes of the base tokenizer.
  \<^verbatim>\<open>self.vocab = Vocabulary()
  self.vocab._token_to_event = {int(token): event for token, event in value.items()}
  self.vocab._event_to_token = {event: int(token) for token, event in value.items()}
  self.vocab.update_token_types_indexes()
  self.has_bpe = len(self.vocab.tokens_of_type('BPE')) > 0\<close>
\<close>

fun load_token_to_event :: "(string, string) dict \<Rightarrow> (token, string) dict \<Rightarrow> py_error + (token, string) dict" where
  "load_token_to_event [] d = Inr d"
| "load_token_to_event ((token, event) # items) d =
     (case int_of_str token of
        Inl e \<Rightarrow> Inl e
      | Inr t \<Rightarrow> load_token_to_event items (dict_set d t event))"

fun load_event_to_token :: "(string, string) dict \<Rightarrow> (string, token) dict \<Rightarrow> py_error + (string, token) dict" where
  "load_event_to_token [] d = Inr d"
| "load_event_to_token ((token, event) # items) d =
     (case int_of_str token of
        Inl e \<Rightarrow> Inl e
      | Inr t \<Rightarrow> load_event_to_token items (dict_set d event t))"

definition load_params :: "BPE \<Rightarrow> (string, string) dict \<Rightarrow> py_error + BPE" where
  "load_params self items =
     (case load_token_to_event items [] of
        Inl e \<Rightarrow> Inl e
      | Inr t2e \<Rightarrow>
          (case load_event_to_token items [] of
             Inl e \<Rightarrow> Inl e
           | Inr e2t \<Rightarrow>
               let v = update_token_types_indexes
                         \<lparr>event_to_token = e2t, token_to_event = t2e, token_types_indexes = []\<rparr>
               in Inr (self\<lparr>vocab := v, has_bpe := 0 < length (tokens_of_type v ''BPE'')\<rparr>)))"

section \<open>Properties\<close>

subsection \<open>The traced scenario\<close>

text \<open>
  A vocabulary of four primitive tokens \<open>0..3\<close>, a wrapper that has not learned yet,
  and the wrapper after \<open>bpe\<close> with \<open>vocab_size = 5\<close> on the single track
  \<open>[0, 1, 0, 1, 2]\<close>.
\<close>

definition scenario_vocab :: Vocabulary where
  "scenario_vocab =
     \<lparr>event_to_token = [(''Pitch_60'', 0), (''Pitch_61'', 1), (''Pitch_62'', 2), (''Pitch_63'', 3)],
      token_to_event = [(0, ''Pitch_60''), (1, ''Pitch_61''), (2, ''Pitch_62''), (3, ''Pitch_63'')],
      token_types_indexes = [(''Pitch'', [0, 1, 2, 3])]\<rparr>"

definition scenario_bpe :: BPE where
  "scenario_bpe =
     \<lparr>has_bpe = False, vocab = scenario_vocab, bpe_successions = [],
      tokens_types_graph = [(''Pitch'', [''Pitch''])]\<rparr>"

definition scenario_learned :: BPE where
  "scenario_learned =
     \<lparr>has_bpe = True,
      vocab =
        \<lparr>event_to_token =
           [(''Pitch_60'', 0), (''Pitch_61'', 1), (''Pitch_62'', 2), (''Pitch_63'', 3),
            (''BPE_0-1.0-1'', 4)],
         token_to_event =
           [(0, ''Pitch_60''), (1, ''Pitch_61''), (2, ''Pitch_62''), (3, ''Pitch_63''),
            (4, ''BPE_0-1.0-1'')],
         token_types_indexes = [(''Pitch'', [0, 1, 2, 3]), (''BPE'', [4])]\<rparr>,
      bpe_successions = [(4, [0, 1])],
      tokens_types_graph = [(''Pitch'', [''Pitch'', ''BPE'']), (''BPE'', [''Pitch''])]\<rparr>"

text \<open>
  C2, as the spec traces it: learning on the track \<open>[0, 1, 0, 1, 2]\<close> rewrites it to
  \<open>[4, 0, 1, 2]\<close>. The code does not: after the replacement at index 0 the scan goes on
  at index 1, where the second \<open>(0, 1)\<close> now stands, and merges it too.
\<close>

theorem bpe_scenario_track_counterexample:
  "map_sum id snd (bpe scenario_bpe [[[0, 1, 0, 1, 2]]] 5) = Inr [[[4, 4, 2]]] \<and>
   map_sum id snd (bpe scenario_bpe [[[0, 1, 0, 1, 2]]] 5) \<noteq> Inr [[[4, 0, 1, 2]]]"
  by code_simp

text \<open>
  C2, amended: with primitive tokens \<open>0..3\<close> and the single track \<open>[0, 1, 0, 1, 2]\<close>,
  \<open>bpe\<close> with \<open>vocab_size = 5\<close> picks the pair \<open>(0, 1)\<close>, registers token \<open>4\<close> with the
  descriptor \<open>BPE_0-1.0-1\<close> (succession \<open>[0, 1]\<close>, full decomposition \<open>[0, 1]\<close>) and
  rewrites the track to \<open>[4, 4, 2]\<close>; \<open>apply_bpe\<close> of \<open>[0, 1, 0, 1, 2]\<close> with the learned
  wrapper gives the same \<open>[4, 4, 2]\<close>, and \<open>decompose_bpe\<close> of \<open>[4, 0, 1, 2]\<close> gives
  \<open>[0, 1, 0, 1, 2]\<close>.
\<close>

theorem bpe_scenario:
  "max_occurrences (count_occurrences [[[0, 1, 0, 1, 2]]]) = Inr [0, 1] \<and>
   bpe scenario_bpe [[[0, 1, 0, 1, 2]]] 5 = Inr (scenario_learned, [[[4, 4, 2]]]) \<and>
   vocab_getitem_int (vocab scenario_learned) 4 = Inr ''BPE_0-1.0-1'' \<and>
   succession_of_event ''BPE_0-1.0-1'' = Inr [0, 1] \<and>
   decomposition_of_val ''0-1.0-1'' = Inr [0, 1] \<and>
   apply_bpe scenario_learned [0, 1, 0, 1, 2] = Inr [4, 4, 2] \<and>
   decompose_bpe scenario_learned [4, 0, 1, 2] = Some (Inr [0, 1, 0, 1, 2])"
  by code_simp

subsection \<open>A corpus without pairs\<close>

lemma count_track_short: "length track \<le> 1 \<Longrightarrow> count_track track occurrences = occurrences"
  by (simp add: count_track_def)

lemma count_sample_short:
  "\<forall>track\<in>set sample. length track \<le> 1 \<Longrightarrow> fold count_track sample occurrences = occurrences"
  by (induction sample arbitrary: occurrences) (simp_all add: count_track_short)

lemma count_samples_short:
  "\<forall>sample\<in>set samples. \<forall>track\<in>set sample. length track \<le> 1 \<Longrightarrow>
   fold (\<lambda>sample. fold count_track sample) samples occurrences = occurrences"
  by (induction samples arbitrary: occurrences) (simp_all add: count_sample_short)

text \<open>
  C6: when no track of the corpus has two tokens (no track at all, or tracks of length
  at most 1) and \<open>vocab_size\<close> exceeds the size of the vocabulary, \<open>bpe\<close> fails with
  \<open>ValueError\<close>, which \<open>max\<close> raises on the empty dict of occurrences in the first pass of
  the loop: it neither loops nor reaches the division of the statistics (which raises
  for no corpus at all, lemma \<open>bpe_no_zero_division\<close>).
\<close>

theorem bpe_no_pairs_fails:
  assumes "\<forall>sample\<in>set samples. \<forall>track\<in>set sample. length track \<le> 1"
    and "int (len_vocab (vocab self)) < vocab_size"
  shows "bpe self samples vocab_size = Inl ValueError"
proof -
  have "count_occurrences samples = []"
    using assms(1) by (simp add: count_occurrences_def count_samples_short)
  then have "bpe_iteration self samples = Inl ValueError"
    by (simp add: bpe_iteration_def max_occurrences_def)
  then have "bpe_loop self samples vocab_size = Inl ValueError"
    using assms(2) by (simp add: bpe_loop.simps [of self samples vocab_size])
  then show ?thesis
    using assms(2) by (simp add: bpe_def)
qed

theorem bpe_no_pairs_fails_witness:
  "bpe scenario_bpe [[[0], []], [], [[3]]] 5 = Inl ValueError"
  using bpe_no_pairs_fails [of "[[[0], []], [], [[3]]]" scenario_bpe 5]
  by (simp add: scenario_bpe_def scenario_vocab_def len_vocab_def)

subsection \<open>Loading a bijection with a repeated descriptor\<close>

lemma nat_of_digits_error: "nat_of_digits acc s = Inl e \<Longrightarrow> e = ValueError"
  by (induction s arbitrary: acc) (auto split: if_splits)

lemma int_of_str_error: "int_of_str s = Inl e \<Longrightarrow> e = ValueError"
  by (auto simp: int_of_str_def nat_of_str_def split: list.splits if_splits sum.splits
      dest: nat_of_digits_error)

lemma load_token_to_event_keys:
  assumes "\<forall>p\<in>set items. \<exists>t. int_of_str (fst p) = Inr t"
  shows "\<exists>d'. load_token_to_event items d = Inr d' \<and>
     fst ` set d' = fst ` set d \<union> {t. \<exists>p\<in>set items. int_of_str (fst p) = Inr t}"
  using assms
proof (induction items arbitrary: d)
  case Nil
  then show ?case by simp
next
  case (Cons item items)
  obtain token event where item: "item = (token, event)" by (cases item)
  from Cons.prems obtain t where t: "int_of_str token = Inr t"
    by (auto simp: item)
  from Cons.prems have "\<forall>p\<in>set items. \<exists>t. int_of_str (fst p) = Inr t" by simp
  from Cons.IH [OF this, of "dict_set d t event"] obtain d' where
    d': "load_token_to_event items (dict_set d t event) = Inr d'" and
    k: "fst ` set d' = fst ` set (dict_set d t event) \<union>
          {t. \<exists>p\<in>set items. int_of_str (fst p) = Inr t}"
    by blast
  have "fst ` set (dict_set d t event) = {t} \<union> fst ` set d"
    by (simp add: dict_set_def dom_update)
  with k t have "fst ` set d' = fst ` set d \<union>
      {t. \<exists>p\<in>set (item # items). int_of_str (fst p) = Inr t}"
    by (auto simp: item)
  with d' t show ?case by (simp add: item)
qed

lemma load_event_to_token_keys:
  assumes "\<forall>p\<in>set items. \<exists>t. int_of_str (fst p) = Inr t"
  shows "\<exists>d'. load_event_to_token items d = Inr d' \<and>
     fst ` set d' = fst ` set d \<union> snd ` set items"
  using assms
proof (induction items arbitrary: d)
  case Nil
  then show ?case by simp
next
  case (Cons item items)
  obtain token event where item: "item = (token, event)" by (cases item)
  from Cons.prems obtain t where t: "int_of_str token = Inr t"
    by (auto simp: item)
  from Cons.prems have "\<forall>p\<in>set items. \<exists>t. int_of_str (fst p) = Inr t" by simp
  from Cons.IH [OF this, of "dict_set d event t"] obtain d' where
    d': "load_event_to_token items (dict_set d event t) = Inr d'" and
    k: "fst ` set d' = fst ` set (dict_set d event t) \<union> snd ` set items"
    by blast
  have "fst ` set (dict_set d event t) = {event} \<union> fst ` set d"
    by (simp add: dict_set_def dom_update)
  with k have "fst ` set d' = fst ` set d \<union> snd ` set (item # items)"
    by (auto simp: item)
  with d' t show ?case by (simp add: item)
qed

lemma load_token_to_event_error: "load_token_to_event items d = Inl e \<Longrightarrow> e = ValueError"
  by (induction items arbitrary: d) (auto split: sum.splits dest: int_of_str_error)

lemma load_event_to_token_error: "load_event_to_token items d = Inl e \<Longrightarrow> e = ValueError"
  by (induction items arbitrary: d) (auto split: sum.splits dest: int_of_str_error)

lemma load_params_error: "load_params self items = Inl e \<Longrightarrow> e = ValueError"
  by (auto simp: load_params_def Let_def split: sum.splits
      dest: load_token_to_event_error load_event_to_token_error)

text \<open>
  C5, as stated: loading a bijection in which two tokens have the same descriptor fails
  and leaves the vocabulary alone. The code has no such check: it returns normally,
  with both tokens in \<open>token_to_event\<close> and the shared descriptor mapped to the last of
  them in \<open>event_to_token\<close>.
\<close>

theorem load_params_duplicate_counterexample:
  "load_params scenario_bpe [(''0'', ''Pitch_60''), (''1'', ''Pitch_60'')] =
     Inr \<lparr>has_bpe = False,
          vocab = \<lparr>event_to_token = [(''Pitch_60'', 1)],
                   token_to_event = [(0, ''Pitch_60''), (1, ''Pitch_60'')],
                   token_types_indexes = [(''Pitch'', [1])]\<rparr>,
          bpe_successions = [],
          tokens_types_graph = [(''Pitch'', [''Pitch''])]\<rparr>"
  by code_simp

text \<open>
  C5, amended: \<open>load_params\<close> does not look for repeated descriptors. Whenever every
  token key of the serialized bijection is an integer numeral it returns normally, and
  the new vocabulary holds every token of the file in \<open>token_to_event\<close> and every
  descriptor of the file in \<open>event_to_token\<close>, whether or not two tokens share a
  descriptor. (Its only failure is the \<open>ValueError\<close> of \<open>int\<close> on a key that is not a
  numeral, lemma \<open>load_params_error\<close>.)
\<close>

theorem load_params_accepts_duplicates:
  assumes "\<forall>p\<in>set items. \<exists>t. int_of_str (fst p) = Inr t"
  shows "\<exists>self'. load_params self items = Inr self' \<and>
     set (dict_keys (token_to_event (vocab self'))) =
       {t. \<exists>p\<in>set items. int_of_str (fst p) = Inr t} \<and>
     set (dict_keys (event_to_token (vocab self'))) = snd ` set items"
proof -
  from load_token_to_event_keys [OF assms, of "[]"] obtain t2e where
    a: "load_token_to_event items [] = Inr t2e" and
    ka: "fst ` set t2e = {t. \<exists>p\<in>set items. int_of_str (fst p) = Inr t}"
    by auto
  from load_event_to_token_keys [OF assms, of "[]"] obtain e2t where
    b: "load_event_to_token items [] = Inr e2t" and
    kb: "fst ` set e2t = snd ` set items"
    by auto
  show ?thesis
    using a b ka kb
    by (simp add: load_params_def Let_def update_token_types_indexes_def dict_keys_def)
qed

theorem load_params_accepts_duplicates_witness:
  "\<exists>self'. load_params scenario_bpe [(''0'', ''Pitch_60''), (''1'', ''Pitch_60'')] = Inr self' \<and>
     set (dict_keys (token_to_event (vocab self'))) =
       {t. \<exists>p\<in>set [(''0'', ''Pitch_60''), (''1'', ''Pitch_60'')]. int_of_str (fst p) = Inr t} \<and>
     set (dict_keys (event_to_token (vocab self'))) =
       snd ` set [(''0'', ''Pitch_60''), (''1'', ''Pitch_60'')]"
proof -
  have "int_of_str ''0'' = Inr 0" and "int_of_str ''1'' = Inr 1"
    by code_simp+
  then have "\<forall>p\<in>set [(''0'', ''Pitch_60''), (''1'', ''Pitch_60'')]. \<exists>t. int_of_str (fst p) = Inr t"
    by simp
  from load_params_accepts_duplicates [OF this] show ?thesis .
qed

subsection \<open>Primitive tokens and the flag \<open>has_bpe\<close>\<close>

text \<open>
  A primitive token of a vocabulary: the vocabulary has it, its descriptor reads
  \<open>Type_Value\<close> (exactly two pieces around one underscore) and the type is not \<open>BPE\<close>.
\<close>

definition primitive_token :: "Vocabulary \<Rightarrow> token \<Rightarrow> bool" where
  "primitive_token v tok =
     (case vocab_getitem_int v tok of
        Inl e \<Rightarrow> False
      | Inr event \<Rightarrow>
          (case unpack2 (split (CHR ''_'') event) of
             Inl e \<Rightarrow> False
           | Inr (token_type, token_val) \<Rightarrow> token_type \<noteq> ''BPE''))"

lemma decompose_loop_primitive:
  "list_all (primitive_token v) (drop i tokens) \<Longrightarrow> decompose_loop v tokens i = Some (Inr tokens)"
proof (induction "length tokens - i" arbitrary: i)
  case 0
  then show ?case by (subst decompose_loop.simps) simp
next
  case (Suc n)
  then have lt: "i < length tokens" by simp
  then have d: "drop i tokens = tokens ! i # drop (Suc i) tokens"
    by (simp add: Cons_nth_drop_Suc)
  with Suc.prems have p: "primitive_token v (tokens ! i)"
    and r: "list_all (primitive_token v) (drop (Suc i) tokens)"
    by simp_all
  have "n = length tokens - Suc i" using Suc.hyps(2) by simp
  from Suc.hyps(1) [OF this r] have ih: "decompose_loop v tokens (i + 1) = Some (Inr tokens)"
    by simp
  show ?case
    using lt p ih
    by (subst decompose_loop.simps)
       (auto simp: primitive_token_def split: sum.splits prod.splits)
qed

text \<open>
  C7, as stated: with \<open>has_bpe\<close> false, \<open>decompose_bpe\<close> returns its input unchanged for
  every sequence. The code of \<open>decompose_bpe\<close> never reads the flag. On the scenario's
  wrapper before learning it raises \<open>KeyError\<close> on a token the vocabulary does not have;
  on a wrapper whose vocabulary holds a merged token while the flag is still false (the
  state \<open>bpe\<close> leaves when a later pass of its loop raises) it expands the token.
\<close>

theorem decompose_bpe_disabled_counterexample:
  "\<not> has_bpe scenario_bpe \<and>
   apply_bpe scenario_bpe [7] = Inr [7] \<and>
   decompose_bpe scenario_bpe [7] = Some (Inl KeyError) \<and>
   \<not> has_bpe (scenario_learned\<lparr>has_bpe := False\<rparr>) \<and>
   decompose_bpe (scenario_learned\<lparr>has_bpe := False\<rparr>) [4] = Some (Inr [0, 1])"
  by code_simp

text \<open>
  C7, amended: \<open>apply_bpe\<close> returns its input unchanged when \<open>has_bpe\<close> is false.
  \<open>decompose_bpe\<close> does not consult \<open>has_bpe\<close>: whatever the flag, it returns its input
  unchanged when every token of the input is a primitive token of the vocabulary.
\<close>

theorem noop_when_disabled:
  "(\<not> has_bpe self \<longrightarrow> apply_bpe self tokens = Inr tokens) \<and>
   (list_all (primitive_token (vocab self)) tokens \<longrightarrow>
      decompose_bpe self tokens = Some (Inr tokens))"
  by (simp add: apply_bpe_def decompose_bpe_def decompose_loop_primitive)

theorem noop_when_disabled_witness:
  "apply_bpe scenario_bpe [0, 1, 0, 1, 2] = Inr [0, 1, 0, 1, 2] \<and>
   decompose_bpe scenario_bpe [0, 1, 0, 1, 2] = Some (Inr [0, 1, 0, 1, 2])"
proof -
  have a: "\<not> has_bpe scenario_bpe"
    by code_simp
  have b: "list_all (primitive_token (vocab scenario_bpe)) [0, 1, 0, 1, 2]"
    by code_simp
  from noop_when_disabled [of scenario_bpe "[0, 1, 0, 1, 2]"] a b show ?thesis
    by simp
qed

subsection \<open>The size of the vocabulary after learning\<close>

lemma bpe_loop_len:
  "bpe_loop self samples vocab_size = Inr (self', samples') \<Longrightarrow>
   int (len_vocab (vocab self)) \<le> vocab_size \<Longrightarrow>
   int (len_vocab (vocab self')) = vocab_size"
proof (induction self samples vocab_size rule: bpe_loop.induct)
  case (1 self samples vocab_size)
  show ?case
  proof (cases "int (len_vocab (vocab self)) < vocab_size")
    case False
    with "1.prems" show ?thesis
      by (simp add: bpe_loop.simps [of self samples vocab_size])
  next
    case lt: True
    with "1.prems"(1) obtain self1 samples1 where
      it: "bpe_iteration self samples = Inr (self1, samples1)" and
      rest: "bpe_loop self1 samples1 vocab_size = Inr (self', samples')"
      by (auto simp: bpe_loop.simps [of self samples vocab_size] split: sum.splits)
    have "int (len_vocab (vocab self1)) \<le> vocab_size"
      using bpe_iteration_len [OF it] lt by simp
    with "1.IH" [OF lt it refl rest] show ?thesis .
  qed
qed

lemma set_bpe_tokens_successions_vocab:
  "set_bpe_tokens_successions self = Inr self' \<Longrightarrow> vocab self' = vocab self"
  by (auto simp: set_bpe_tokens_successions_def split: sum.splits)

lemma bpe_result:
  assumes "bpe self samples vocab_size = Inr (self', samples')"
  shows "\<exists>self1 self2. bpe_loop self samples vocab_size = Inr (self1, samples') \<and>
     set_bpe_tokens_successions (self1\<lparr>has_bpe := True\<rparr>) = Inr self2 \<and>
     self' = (add_bpe_to_tokens_type_graph self2)
       \<lparr>vocab := update_token_types_indexes (vocab (add_bpe_to_tokens_type_graph self2))\<rparr> \<and>
     int (len_vocab (vocab self)) < vocab_size"
  using assms
  by (auto simp: bpe_def Let_def split: if_splits sum.splits)

lemma bpe_result_event_to_token:
  assumes "bpe self samples vocab_size = Inr (self', samples')"
  shows "\<exists>self1. bpe_loop self samples vocab_size = Inr (self1, samples') \<and>
     event_to_token (vocab self') = event_to_token (vocab self1) \<and>
     token_to_event (vocab self') = token_to_event (vocab self1)"
proof -
  from bpe_result [OF assms] obtain self1 self2 where
    l: "bpe_loop self samples vocab_size = Inr (self1, samples')" and
    s: "set_bpe_tokens_successions (self1\<lparr>has_bpe := True\<rparr>) = Inr self2" and
    e: "self' = (add_bpe_to_tokens_type_graph self2)
       \<lparr>vocab := update_token_types_indexes (vocab (add_bpe_to_tokens_type_graph self2))\<rparr>"
    by blast
  have "vocab self2 = vocab self1"
    using set_bpe_tokens_successions_vocab [OF s] by simp
  with l e show ?thesis
    by (auto simp: add_bpe_to_tokens_type_graph_def Let_def update_token_types_indexes_def)
qed

lemma scenario_bpe_learns:
  "bpe scenario_bpe [[[0, 1, 0, 1, 2]]] 5 = Inr (scenario_learned, [[[4, 4, 2]]])"
  by code_simp

text \<open>
  C3, as stated: for every corpus and every \<open>k \<ge> 1\<close>, learning up to the current size
  plus \<open>k\<close> ends with that size. On the track \<open>[0, 1]\<close> and \<open>k = 2\<close> the first pass merges
  the only pair, the second finds none, and \<open>bpe\<close> raises \<open>ValueError\<close>.
\<close>

theorem bpe_exact_target_counterexample:
  "len_vocab (vocab scenario_bpe) = 4 \<and> bpe scenario_bpe [[[0, 1]]] (4 + 2) = Inl ValueError"
  by code_simp

text \<open>
  C3, amended: \<open>bpe\<close> always ends, by returning or by raising (it is a total function,
  its loop decreasing \<open>vocab_size - len(vocab)\<close>). Whenever it returns normally from a
  call with \<open>vocab_size\<close> equal to the current size plus \<open>k\<close>, \<open>k \<ge> 1\<close>, the size of the
  vocabulary is the initial size plus \<open>k\<close>; and every pass of the loop that completes
  increases the size by exactly 1.
\<close>

theorem bpe_exact_target:
  assumes "vocab_size = int (len_vocab (vocab self)) + int k" and "1 \<le> k"
  shows "(\<forall>self' samples'. bpe self samples vocab_size = Inr (self', samples') \<longrightarrow>
            len_vocab (vocab self') = len_vocab (vocab self) + k) \<and>
         (\<forall>s c s' c'. bpe_iteration s c = Inr (s', c') \<longrightarrow>
            len_vocab (vocab s') = len_vocab (vocab s) + 1)"
proof (intro conjI allI impI)
  fix self' samples'
  assume b: "bpe self samples vocab_size = Inr (self', samples')"
  from bpe_result_event_to_token [OF b] obtain self1 where
    l: "bpe_loop self samples vocab_size = Inr (self1, samples')" and
    e: "event_to_token (vocab self') = event_to_token (vocab self1)"
    by blast
  have "int (len_vocab (vocab self1)) = vocab_size"
    using bpe_loop_len [OF l] assms by simp
  with e assms(1) show "len_vocab (vocab self') = len_vocab (vocab self) + k"
    by (simp add: len_vocab_def)
next
  fix s c s' c'
  assume "bpe_iteration s c = Inr (s', c')"
  then show "len_vocab (vocab s') = len_vocab (vocab s) + 1"
    by (rule bpe_iteration_len)
qed

theorem bpe_exact_target_witness:
  "bpe scenario_bpe [[[0, 1, 0, 1, 2]]] 5 = Inr (scenario_learned, [[[4, 4, 2]]]) \<and>
   len_vocab (vocab scenario_learned) = len_vocab (vocab scenario_bpe) + 1"
proof -
  have n: "(5::int) = int (len_vocab (vocab scenario_bpe)) + int 1"
    by code_simp
  from bpe_exact_target [OF n, of "[[[0, 1, 0, 1, 2]]]"] scenario_bpe_learns
  show ?thesis by simp
qed

subsection \<open>The statistics never divide by zero\<close>

text \<open>
  \<open>bpe\<close> divides by \<open>original_mean\<close> when it prints the variation of the mean length.
  No step before that raises \<open>ZeroDivisionError\<close>, and the division is only reached
  after the loop has run at least once.
\<close>

lemma dict_get_error: "dict_get d k = Inl e \<Longrightarrow> e = KeyError"
  by (auto simp: dict_get_def split: option.splits)

lemma list_get_error: "list_get xs i = Inl e \<Longrightarrow> e = IndexError"
  by (auto simp: list_get_def split: if_splits)

lemma list_set_error: "list_set xs i x = Inl e \<Longrightarrow> e = IndexError"
  by (auto simp: list_set_def split: if_splits)

lemma list_del_error: "list_del xs i = Inl e \<Longrightarrow> e = IndexError"
  by (auto simp: list_del_def split: if_splits)

lemma map_int_error: "map_int ss = Inl e \<Longrightarrow> e = ValueError"
  by (induction ss) (auto split: sum.splits dest: int_of_str_error)

lemma decomposition_of_val_error:
  "decomposition_of_val token_val = Inl e \<Longrightarrow> e \<noteq> ZeroDivisionError"
  by (auto simp: decomposition_of_val_def split: sum.splits
      dest: list_get_error map_int_error)

lemma succession_of_event_error:
  "succession_of_event event = Inl e \<Longrightarrow> e \<noteq> ZeroDivisionError"
  by (auto simp: succession_of_event_def split: sum.splits
      dest: list_get_error map_int_error)

lemma flatten_tokens_error:
  "flatten_tokens v toks acc = Inl e \<Longrightarrow> e \<noteq> ZeroDivisionError"
proof (induction toks arbitrary: acc)
  case Nil
  then show ?case by simp
next
  case (Cons tok toks)
  then show ?case
    by (auto split: sum.splits if_splits
        dest: dict_get_error list_get_error decomposition_of_val_error)
qed

lemma replace_in_track_error:
  "replace_in_track v event to_replace track i = Inl e \<Longrightarrow> e \<noteq> ZeroDivisionError"
proof (induction v event to_replace track i rule: replace_in_track.induct)
  case (1 v event to_replace track i)
  show ?case
  proof (cases "int i < int (length track) - 1")
    case False
    with "1.prems" show ?thesis by (simp add: replace_in_track.simps)
  next
    case lt: True
    show ?thesis
    proof (cases "slice track i (i + 2) = to_replace")
      case False
      with lt "1.prems" "1.IH"(2) show ?thesis
        by (simp add: replace_in_track.simps [of v event to_replace track i])
    next
      case m: True
      show ?thesis
      proof (cases "vocab_getitem_str v event")
        case (Inl x)
        with lt m "1.prems" have "e = x"
          by (simp add: replace_in_track.simps [of v event to_replace track i])
        with Inl show ?thesis
          by (auto simp: vocab_getitem_str_def dest: dict_get_error)
      next
        case g: (Inr tok)
        show ?thesis
        proof (cases "list_set track i tok")
          case (Inl x)
          with lt m g "1.prems" have "e = x"
            by (simp add: replace_in_track.simps [of v event to_replace track i])
          with Inl show ?thesis by (auto dest: list_set_error)
        next
          case s: (Inr track1)
          show ?thesis
          proof (cases "list_del track1 (i + 1)")
            case (Inl x)
            with lt m g s "1.prems" have "e = x"
              by (simp add: replace_in_track.simps [of v event to_replace track i])
            with Inl show ?thesis by (auto dest: list_del_error)
          next
            case d: (Inr track2)
            with lt m g s "1.prems" have
              "replace_in_track v event to_replace track2 (i + 1) = Inl e"
              by (simp add: replace_in_track.simps [of v event to_replace track i])
            from "1.IH"(1) [OF lt m g s d this] show ?thesis .
          qed
        qed
      qed
    qed
  qed
qed

lemma replace_in_tracks_error:
  "replace_in_tracks v event to_replace tracks = Inl e \<Longrightarrow> e \<noteq> ZeroDivisionError"
  by (induction tracks arbitrary: e)
     (auto split: sum.splits dest: replace_in_track_error)

lemma replace_in_samples_error:
  "replace_in_samples v event to_replace samples = Inl e \<Longrightarrow> e \<noteq> ZeroDivisionError"
  by (induction samples arbitrary: e)
     (auto split: sum.splits dest: replace_in_tracks_error)

lemma bpe_iteration_error:
  "bpe_iteration self samples = Inl e \<Longrightarrow> e \<noteq> ZeroDivisionError"
  by (auto simp: bpe_iteration_def Let_def max_occurrences_def add_event_def
      split: sum.splits list.splits if_splits
      dest: flatten_tokens_error replace_in_samples_error)

lemma bpe_loop_error:
  "bpe_loop self samples vocab_size = Inl e \<Longrightarrow> e \<noteq> ZeroDivisionError"
proof (induction self samples vocab_size rule: bpe_loop.induct)
  case (1 self samples vocab_size)
  show ?case
  proof (cases "int (len_vocab (vocab self)) < vocab_size")
    case False
    with "1.prems" show ?thesis by (simp add: bpe_loop.simps)
  next
    case lt: True
    show ?thesis
    proof (cases "bpe_iteration self samples")
      case (Inl x)
      with lt "1.prems" have "e = x"
        by (simp add: bpe_loop.simps [of self samples vocab_size])
      with Inl show ?thesis by (auto dest: bpe_iteration_error)
    next
      case (Inr r)
      obtain self' samples' where r: "r = (self', samples')" by (cases r)
      with lt Inr "1.prems" have "bpe_loop self' samples' vocab_size = Inl e"
        by (simp add: bpe_loop.simps [of self samples vocab_size])
      from "1.IH" [OF lt Inr r [symmetric] this] show ?thesis .
    qed
  qed
qed

lemma successions_of_error:
  "successions_of v toks d = Inl e \<Longrightarrow> e \<noteq> ZeroDivisionError"
  by (induction toks arbitrary: d)
     (auto split: sum.splits dest: dict_get_error succession_of_event_error)

lemma count_not_empty_long_track:
  assumes "count_occurrences samples \<noteq> []"
  shows "\<exists>sample\<in>set samples. \<exists>track\<in>set sample. 2 \<le> length track"
proof (rule ccontr)
  assume "\<not> (\<exists>sample\<in>set samples. \<exists>track\<in>set sample. 2 \<le> length track)"
  then have "\<forall>sample\<in>set samples. \<forall>track\<in>set sample. length track \<le> 1"
    by (fastforce simp: not_le)
  then have "count_occurrences samples = []"
    by (simp add: count_occurrences_def count_samples_short)
  with assms show False by simp
qed

lemma mean_length_positive:
  assumes "\<exists>sample\<in>set samples. \<exists>track\<in>set sample. 2 \<le> length track"
  shows "mean_length (lengths_of samples) \<noteq> 0"
proof -
  from assms obtain n where n: "n \<in> set (lengths_of samples)" and n2: "2 \<le> n"
    by (auto simp: lengths_of_def)
  have "n \<le> sum_list (lengths_of samples)"
    by (rule member_le_sum_list) (use n in simp_all)
  with n2 have s: "sum_list (lengths_of samples) \<noteq> 0" by linarith
  have l: "length (lengths_of samples) \<noteq> 0"
    using n by (cases "lengths_of samples") auto
  have "(of_nat (sum_list (lengths_of samples)) :: rat) / of_nat (length (lengths_of samples)) \<noteq> 0"
    using s l by (simp only: divide_eq_0_iff of_nat_eq_0_iff) simp
  with l show ?thesis
    by (simp only: mean_length_def) simp
qed

lemma bpe_loop_first_pass:
  assumes "bpe_loop self samples vocab_size = Inr r"
    and "int (len_vocab (vocab self)) < vocab_size"
  shows "count_occurrences samples \<noteq> []"
proof
  assume "count_occurrences samples = []"
  then have "bpe_iteration self samples = Inl ValueError"
    by (simp add: bpe_iteration_def max_occurrences_def)
  with assms show False
    by (simp add: bpe_loop.simps [of self samples vocab_size])
qed

text \<open>The division never raises: when the loop has completed, its first pass found
  a pair, so some track has two tokens and the mean of the original lengths is
  positive.\<close>

lemma bpe_no_zero_division: "bpe self samples vocab_size \<noteq> Inl ZeroDivisionError"
proof
  assume z: "bpe self samples vocab_size = Inl ZeroDivisionError"
  then have lt: "int (len_vocab (vocab self)) < vocab_size"
    by (auto simp: bpe_def split: if_splits)
  show False
  proof (cases "bpe_loop self samples vocab_size")
    case (Inl e)
    with z lt have "e = ZeroDivisionError" by (simp add: bpe_def)
    with bpe_loop_error [OF Inl] show False by simp
  next
    case (Inr r)
    obtain self1 samples' where r: "r = (self1, samples')" by (cases r)
    have m: "mean_length (lengths_of samples) \<noteq> 0"
      using mean_length_positive [OF count_not_empty_long_track [OF bpe_loop_first_pass [OF Inr lt]]] .
    show False
    proof (cases "set_bpe_tokens_successions (self1\<lparr>has_bpe := True\<rparr>)")
      case (Inl e)
      with z lt Inr r have "e = ZeroDivisionError" by (simp add: bpe_def)
      with Inl show False
        by (auto simp: set_bpe_tokens_successions_def split: sum.splits
            dest: successions_of_error)
    next
      case (Inr self2)
      with z lt \<open>bpe_loop self samples vocab_size = Inr r\<close> r m show False
        by (simp add: bpe_def Let_def)
    qed
  qed
qed

subsection \<open>Fixed points of \<open>apply_bpe\<close>\<close>

text \<open>A succession of at least two tokens shortens the list at every replacement, so a
  scan that keeps the length has replaced nothing.\<close>

lemma apply_succession_same_length:
  "apply_succession tok token_succession tokens i = Inr tokens' \<Longrightarrow>
   2 \<le> length token_succession \<Longrightarrow> length tokens' = length tokens \<Longrightarrow> tokens' = tokens"
proof (induction tok token_succession tokens i rule: apply_succession.induct)
  case (1 tok token_succession tokens i)
  show ?case
  proof (cases "int i \<le> int (length tokens) - int (length token_succession)")
    case False
    with "1.prems"(1) show ?thesis by (simp add: apply_succession.simps)
  next
    case le: True
    show ?thesis
    proof (cases "slice tokens i (i + length token_succession) = token_succession")
      case False
      with le "1.prems" "1.IH"(2) show ?thesis
        by (simp add: apply_succession.simps [of tok token_succession tokens i])
    next
      case m: True
      from le m "1.prems"(1) obtain tokens1 tokens2 where
        s: "list_set tokens i tok = Inr tokens1" and
        d: "del_next (length token_succession - 1) tokens1 i = Inr tokens2" and
        r: "apply_succession tok token_succession tokens2 (i + 1) = Inr tokens'"
        by (auto simp: apply_succession.simps [of tok token_succession tokens i]
            split: sum.splits)
      have "length tokens2 = length tokens - (length token_succession - 1)"
        using list_set_length [OF s] del_next_length [OF d] by simp
      moreover have "length token_succession \<le> length tokens" using le by linarith
      ultimately have "length tokens2 < length tokens"
        using "1.prems"(2) by linarith
      with apply_succession_length [OF r] "1.prems"(3) show ?thesis by simp
    qed
  qed
qed

lemma apply_round_same_length:
  "apply_round items tokens = Inr tokens' \<Longrightarrow>
   list_all (\<lambda>(tok, token_succession). 2 \<le> length token_succession) items \<Longrightarrow>
   length tokens' = length tokens \<Longrightarrow> tokens' = tokens"
proof (induction items arbitrary: tokens)
  case Nil
  then show ?case by simp
next
  case (Cons item items)
  obtain tok token_succession where item: "item = (tok, token_succession)"
    by (cases item)
  from Cons.prems(1) obtain tokens1 where
    a: "apply_succession tok token_succession tokens 0 = Inr tokens1" and
    b: "apply_round items tokens1 = Inr tokens'"
    by (auto simp: item split: sum.splits)
  from Cons.prems(2) have two: "2 \<le> length token_succession"
    and rest: "list_all (\<lambda>(tok, token_succession). 2 \<le> length token_succession) items"
    by (simp_all add: item)
  have l1: "length tokens1 = length tokens"
    using apply_succession_length [OF a] apply_round_length [OF b] Cons.prems(3) by simp
  then have "tokens1 = tokens"
    using apply_succession_same_length [OF a two] by simp
  moreover have "tokens' = tokens1"
    using Cons.IH [OF b rest] l1 Cons.prems(3) by simp
  ultimately show ?case by simp
qed

lemma apply_loop_stop: "apply_loop successions (length tokens) tokens = Inr tokens"
  by (simp add: apply_loop.simps)

lemma apply_loop_step:
  "previous_len \<noteq> length tokens \<Longrightarrow> apply_round successions tokens = Inr tokens' \<Longrightarrow>
   apply_loop successions previous_len tokens = apply_loop successions (length tokens) tokens'"
  by (simp add: apply_loop.simps [of successions previous_len tokens])

lemma apply_loop_fixed:
  "apply_loop successions previous_len tokens = Inr out \<Longrightarrow>
   previous_len \<noteq> length tokens \<Longrightarrow>
   list_all (\<lambda>(tok, token_succession). 2 \<le> length token_succession) successions \<Longrightarrow>
   apply_round successions out = Inr out"
proof (induction successions previous_len tokens rule: apply_loop.induct)
  case (1 successions previous_len tokens)
  from "1.prems"(1,2) obtain tokens' where
    r: "apply_round successions tokens = Inr tokens'" and
    l: "apply_loop successions (length tokens) tokens' = Inr out"
    by (auto simp: apply_loop.simps [of successions previous_len tokens] split: sum.splits)
  show ?case
  proof (cases "length tokens = length tokens'")
    case True
    with l have "out = tokens'"
      by (simp add: apply_loop_stop)
    moreover have "tokens' = tokens"
      using apply_round_same_length [OF r "1.prems"(3)] True by simp
    ultimately show ?thesis using r by simp
  next
    case False
    from "1.IH" [OF "1.prems"(2) r l False "1.prems"(3)] show ?thesis .
  qed
qed

lemma apply_loop_at_fixed:
  assumes "apply_round successions out = Inr out"
  shows "apply_loop successions (length out + 1) out = Inr out"
  using apply_loop_step [OF _ assms, of "length out + 1"] by (simp add: apply_loop_stop)

text \<open>With successions that are not empty no step of \<open>apply_bpe\<close> raises.\<close>

lemma del_next_ok:
  "i + n < length tokens \<Longrightarrow>
   del_next n tokens i = Inr (take (Suc i) tokens @ drop (Suc i + n) tokens)"
proof (induction n arbitrary: tokens)
  case 0
  then show ?case by simp
next
  case (Suc n)
  let ?t = "take (Suc i) tokens @ drop (Suc (Suc i)) tokens"
  have d: "list_del tokens (i + 1) = Inr ?t"
    using Suc.prems by (simp add: list_del_def)
  have "i + n < length ?t" using Suc.prems by simp
  from Suc.IH [OF this] have "del_next n ?t i = Inr (take (Suc i) ?t @ drop (Suc i + n) ?t)" .
  moreover have "take (Suc i) ?t = take (Suc i) tokens"
    using Suc.prems by simp
  moreover have "drop (Suc i + n) ?t = drop (Suc i + Suc n) tokens"
    using Suc.prems by (simp add: min_def add.commute)
  ultimately show ?case using d by simp
qed

lemma apply_succession_ok:
  "token_succession \<noteq> [] \<Longrightarrow> \<exists>tokens'. apply_succession tok token_succession tokens i = Inr tokens'"
proof (induction tok token_succession tokens i rule: apply_succession.induct)
  case (1 tok token_succession tokens i)
  show ?case
  proof (cases "int i \<le> int (length tokens) - int (length token_succession)")
    case False
    then show ?thesis by (simp add: apply_succession.simps)
  next
    case le: True
    show ?thesis
    proof (cases "slice tokens i (i + length token_succession) = token_succession")
      case False
      with le "1.IH"(2) "1.prems" show ?thesis
        by (simp add: apply_succession.simps [of tok token_succession tokens i])
    next
      case m: True
      have n: "0 < length token_succession" using "1.prems" by simp
      with le have i: "i + length token_succession \<le> length tokens" by linarith
      from i n have "i < length tokens" by linarith
      then have s: "list_set tokens i tok = Inr (tokens[i := tok])"
        by (simp add: list_set_def)
      have "i + (length token_succession - 1) < length tokens"
        using i n by linarith
      then have "i + (length token_succession - 1) < length (tokens[i := tok])"
        by simp
      from del_next_ok [OF this] obtain tokens2 where
        d: "del_next (length token_succession - 1) (tokens[i := tok]) i = Inr tokens2"
        by blast
      from "1.IH"(1) [OF le m s d "1.prems"] obtain tokens' where
        "apply_succession tok token_succession tokens2 (i + 1) = Inr tokens'" by blast
      with le m s d show ?thesis
        by (simp add: apply_succession.simps [of tok token_succession tokens i])
    qed
  qed
qed

lemma apply_round_ok:
  "list_all (\<lambda>(tok, token_succession). token_succession \<noteq> []) items \<Longrightarrow>
   \<exists>tokens'. apply_round items tokens = Inr tokens'"
proof (induction items arbitrary: tokens)
  case Nil
  then show ?case by simp
next
  case (Cons item items)
  obtain tok token_succession where item: "item = (tok, token_succession)"
    by (cases item)
  from Cons.prems have ne: "token_succession \<noteq> []"
    and rest: "list_all (\<lambda>(tok, token_succession). token_succession \<noteq> []) items"
    by (simp_all add: item)
  from apply_succession_ok [OF ne] obtain tokens1 where
    a: "apply_succession tok token_succession tokens 0 = Inr tokens1" by blast
  from Cons.IH [OF rest] obtain tokens' where "apply_round items tokens1 = Inr tokens'"
    by blast
  with a show ?case by (simp add: item)
qed

lemma apply_loop_ok:
  "list_all (\<lambda>(tok, token_succession). token_succession \<noteq> []) successions \<Longrightarrow>
   \<exists>out. apply_loop successions previous_len tokens = Inr out"
proof (induction successions previous_len tokens rule: apply_loop.induct)
  case (1 successions previous_len tokens)
  show ?case
  proof (cases "previous_len = length tokens")
    case True
    then show ?thesis by (simp add: apply_loop.simps)
  next
    case False
    from apply_round_ok [OF "1.prems"] obtain tokens' where
      r: "apply_round successions tokens = Inr tokens'" by blast
    from "1.IH" [OF False r "1.prems"] obtain out where
      "apply_loop successions (length tokens) tokens' = Inr out" by blast
    with False r show ?thesis
      by (simp add: apply_loop.simps [of successions previous_len tokens])
  qed
qed

lemma pairs_not_empty:
  "list_all (\<lambda>(tok, token_succession). 2 \<le> length token_succession) items \<Longrightarrow>
   list_all (\<lambda>(tok, token_succession). token_succession \<noteq> []) items"
  by (induction items) auto

text \<open>
  C8: for a merge table as learning builds it, every succession having (at least) two
  tokens, and every sequence \<open>s\<close>, \<open>apply_bpe\<close> returns some \<open>s'\<close> and \<open>apply_bpe\<close> of \<open>s'\<close>
  is \<open>s'\<close> again.
\<close>

theorem apply_bpe_idempotent:
  assumes "list_all (\<lambda>(tok, token_succession). 2 \<le> length token_succession) (bpe_successions self)"
  shows "\<exists>s'. apply_bpe self s = Inr s' \<and> apply_bpe self s' = Inr s'"
proof (cases "has_bpe self")
  case False
  then show ?thesis by (simp add: apply_bpe_def)
next
  case True
  from apply_loop_ok [OF pairs_not_empty [OF assms]] obtain s' where
    a: "apply_loop (bpe_successions self) (length s + 1) s = Inr s'" by blast
  have "apply_round (bpe_successions self) s' = Inr s'"
    using apply_loop_fixed [OF a _ assms] by simp
  from apply_loop_at_fixed [OF this] a True show ?thesis
    by (simp add: apply_bpe_def)
qed

theorem apply_bpe_idempotent_witness:
  "apply_bpe scenario_learned [0, 1, 0, 1, 2] = Inr [4, 4, 2] \<and>
   apply_bpe scenario_learned [4, 4, 2] = Inr [4, 4, 2]"
proof -
  have "list_all (\<lambda>(tok, token_succession). 2 \<le> length token_succession)
          (bpe_successions scenario_learned)"
    by (simp add: scenario_learned_def)
  from apply_bpe_idempotent [OF this, of "[0, 1, 0, 1, 2]"] obtain s' where
    a: "apply_bpe scenario_learned [0, 1, 0, 1, 2] = Inr s'" and
    b: "apply_bpe scenario_learned s' = Inr s'"
    by blast
  have "apply_bpe scenario_learned [0, 1, 0, 1, 2] = Inr [4, 4, 2]"
    by code_simp
  with a b show ?thesis by simp
qed

subsection \<open>What \<open>decompose_bpe\<close> leaves of merged tokens\<close>

text \<open>
  The reading \<open>decompose_bpe\<close> makes of a token: a merged token is one whose descriptor
  has the type \<open>BPE\<close>; \<open>full_decomposition\<close> is what the loop puts in the place of a
  token (the token itself when primitive, the decomposition written in the descriptor
  when merged); a token is flat when that is a list of primitive tokens; \<open>expand_all\<close>
  expands every token of a sequence once.
\<close>

definition full_decomposition :: "Vocabulary \<Rightarrow> token \<Rightarrow> py_error + token list" where
  "full_decomposition v tok =
     (case vocab_getitem_int v tok of
        Inl e \<Rightarrow> Inl e
      | Inr event \<Rightarrow>
          (case unpack2 (split (CHR ''_'') event) of
             Inl e \<Rightarrow> Inl e
           | Inr (token_type, token_val) \<Rightarrow>
               if token_type = ''BPE'' then decomposition_of_val token_val else Inr [tok]))"

definition merged_token :: "Vocabulary \<Rightarrow> token \<Rightarrow> bool" where
  "merged_token v tok =
     (case vocab_getitem_int v tok of
        Inl e \<Rightarrow> False
      | Inr event \<Rightarrow>
          (case unpack2 (split (CHR ''_'') event) of
             Inl e \<Rightarrow> False
           | Inr (token_type, token_val) \<Rightarrow> token_type = ''BPE''))"

definition flat_token :: "Vocabulary \<Rightarrow> token \<Rightarrow> bool" where
  "flat_token v tok =
     (case full_decomposition v tok of
        Inl e \<Rightarrow> False
      | Inr ds \<Rightarrow> list_all (primitive_token v) ds)"

definition expand :: "Vocabulary \<Rightarrow> token \<Rightarrow> token list" where
  "expand v tok = (case full_decomposition v tok of Inl e \<Rightarrow> [] | Inr ds \<Rightarrow> ds)"

definition expand_all :: "Vocabulary \<Rightarrow> token list \<Rightarrow> token list" where
  "expand_all v tokens = concat (map (expand v) tokens)"

definition weight :: "Vocabulary \<Rightarrow> token \<Rightarrow> nat" where
  "weight v tok = (if primitive_token v tok then 1 else Suc (length (expand v tok)))"

lemma split_not_Nil: "split sep s \<noteq> []"
  by (induction s) (auto split: list.splits)

lemma map_int_length: "map_int ss = Inr ns \<Longrightarrow> length ns = length ss"
  by (induction ss arbitrary: ns) (auto split: sum.splits)

lemma decomposition_of_val_not_Nil: "decomposition_of_val token_val = Inr ds \<Longrightarrow> ds \<noteq> []"
  using split_not_Nil map_int_length
  by (fastforce simp: decomposition_of_val_def split: sum.splits)

lemma insert_all_eq:
  "i \<le> length tokens \<Longrightarrow> insert_all tokens i xs = take i tokens @ xs @ drop i tokens"
proof (induction xs arbitrary: tokens i)
  case Nil
  then show ?case by simp
next
  case (Cons x xs)
  have "i + 1 \<le> length (list_insert tokens i x)"
    using Cons.prems by (simp add: list_insert_def)
  from Cons.IH [OF this] Cons.prems show ?case
    by (simp add: list_insert_def min_def)
qed

lemma primitive_expand: "primitive_token v tok \<Longrightarrow> expand v tok = [tok]"
  by (auto simp: primitive_token_def expand_def full_decomposition_def split: sum.splits)

lemma primitive_flat: "primitive_token v tok \<Longrightarrow> flat_token v tok"
  by (auto simp: primitive_token_def flat_token_def full_decomposition_def split: sum.splits)

lemma expand_all_primitive: "list_all (primitive_token v) tokens \<Longrightarrow> expand_all v tokens = tokens"
  by (induction tokens) (simp_all add: expand_all_def primitive_expand)

lemma expand_all_append: "expand_all v (xs @ ys) = expand_all v xs @ expand_all v ys"
  by (simp add: expand_all_def)

lemma decompose_loop_merged:
  assumes "i < length tokens" and "merged_token v (tokens ! i)"
    and "full_decomposition v (tokens ! i) = Inr ds"
  shows "decompose_loop v tokens i =
         decompose_loop v (take i tokens @ ds @ drop (Suc i) tokens) (i + 1)"
proof -
  from assms(2,3) obtain event token_val where
    e: "vocab_getitem_int v (tokens ! i) = Inr event" and
    u: "unpack2 (split (CHR ''_'') event) = Inr (''BPE'', token_val)" and
    d: "decomposition_of_val token_val = Inr ds"
    by (auto simp: merged_token_def full_decomposition_def split: sum.splits)
  have l: "list_del tokens i = Inr (take i tokens @ drop (Suc i) tokens)"
    using assms(1) by (simp add: list_del_def)
  have "insert_all (take i tokens @ drop (Suc i) tokens) i ds =
        take i tokens @ ds @ drop (Suc i) tokens"
    using assms(1) by (simp add: insert_all_eq min_def)
  with assms(1) e u d l show ?thesis
    by (subst decompose_loop.simps) simp
qed

lemma decompose_loop_skip:
  assumes "i < length tokens" and "primitive_token v (tokens ! i)"
  shows "decompose_loop v tokens i = decompose_loop v tokens (i + 1)"
  using assms
  by (subst decompose_loop.simps)
     (auto simp: primitive_token_def split: sum.splits)

lemma flat_token_cases:
  assumes "flat_token v tok"
  obtains "primitive_token v tok"
  | ds where "merged_token v tok" "full_decomposition v tok = Inr ds"
      "list_all (primitive_token v) ds" "ds \<noteq> []"
  using assms decomposition_of_val_not_Nil
  by (auto simp: flat_token_def full_decomposition_def merged_token_def primitive_token_def
      split: sum.splits if_splits)

lemma decompose_loop_flat:
  "list_all (flat_token v) (drop i tokens) \<Longrightarrow>
   decompose_loop v tokens i = Some (Inr (take i tokens @ expand_all v (drop i tokens)))"
proof (induction "sum_list (map (weight v) (drop i tokens))" arbitrary: tokens i rule: less_induct)
  case less
  show ?case
  proof (cases "i < length tokens")
    case False
    then show ?thesis
      by (subst decompose_loop.simps) (simp add: expand_all_def)
  next
    case lt: True
    then have d: "drop i tokens = tokens ! i # drop (Suc i) tokens"
      by (simp add: Cons_nth_drop_Suc)
    with less.prems have f: "flat_token v (tokens ! i)"
      and r: "list_all (flat_token v) (drop (Suc i) tokens)"
      by simp_all
    from f show ?thesis
    proof (cases rule: flat_token_cases)
      case 1
      have "sum_list (map (weight v) (drop (i + 1) tokens)) < sum_list (map (weight v) (drop i tokens))"
        using 1 by (simp add: d weight_def)
      from less.hyps [OF this] r
      have "decompose_loop v tokens (i + 1) =
            Some (Inr (take (i + 1) tokens @ expand_all v (drop (i + 1) tokens)))"
        by simp
      moreover have "take (i + 1) tokens @ expand_all v (drop (i + 1) tokens) =
          take i tokens @ expand_all v (drop i tokens)"
        using lt 1 by (simp add: d expand_all_def primitive_expand take_Suc_conv_app_nth)
      ultimately show ?thesis
        using decompose_loop_skip [OF lt 1] by simp
    next
      case (2 ds)
      let ?t = "take i tokens @ ds @ drop (Suc i) tokens"
      from 2(4) obtain d0 ds' where ds: "ds = d0 # ds'" by (cases ds) auto
      have dr: "drop (i + 1) ?t = ds' @ drop (Suc i) tokens"
        using lt by (simp add: ds)
      have tk: "take (i + 1) ?t = take i tokens @ [d0]"
        using lt by (simp add: ds)
      have np: "\<not> primitive_token v (tokens ! i)"
        using 2(1) by (auto simp: merged_token_def primitive_token_def split: sum.splits)
      have ex: "expand v (tokens ! i) = ds"
        using 2(2) by (simp add: expand_def)
      have p': "list_all (primitive_token v) ds'" using 2(3) by (simp add: ds)
      have "sum_list (map (weight v) ds') = length ds'"
        using p' by (induction ds') (simp_all add: weight_def)
      then have "sum_list (map (weight v) (drop (i + 1) ?t)) < sum_list (map (weight v) (drop i tokens))"
        using np ex unfolding dr d by (simp add: weight_def ds)
      moreover have "list_all (flat_token v) (drop (i + 1) ?t)"
        using r p' unfolding dr by (auto simp: list_all_iff primitive_flat)
      ultimately have "decompose_loop v ?t (i + 1) =
          Some (Inr (take (i + 1) ?t @ expand_all v (drop (i + 1) ?t)))"
        by (rule less.hyps)
      moreover have "take (i + 1) ?t @ expand_all v (drop (i + 1) ?t) =
          take i tokens @ expand_all v (drop i tokens)"
        using p' ex
        by (simp only: dr tk expand_all_append expand_all_primitive)
           (simp add: d expand_all_def ds)
      ultimately show ?thesis
        using decompose_loop_merged [OF lt 2(1) 2(2)] by simp
    qed
  qed
qed

definition flat_vocab :: "Vocabulary \<Rightarrow> bool" where
  "flat_vocab v = list_all (flat_token v) (dict_keys (token_to_event v))"

lemma expand_all_flat:
  "list_all (flat_token v) tokens \<Longrightarrow> list_all (primitive_token v) (expand_all v tokens)"
  by (induction tokens)
     (auto simp: expand_all_def expand_def flat_token_def split: sum.splits)

lemma primitive_not_merged: "primitive_token v tok \<Longrightarrow> \<not> merged_token v tok"
  by (auto simp: primitive_token_def merged_token_def split: sum.splits)

text \<open>
  A vocabulary whose decompositions are not flattened, as \<open>load_params\<close> accepts it from
  a file: the decomposition of token \<open>4\<close> starts with the merged token \<open>3\<close>, that of
  token \<open>5\<close> ends with it.
\<close>

definition nested_bpe :: BPE where
  "nested_bpe =
     \<lparr>has_bpe = True,
      vocab =
        \<lparr>event_to_token =
           [(''Pitch_60'', 0), (''Pitch_61'', 1), (''Pitch_62'', 2), (''BPE_0-1.0-1'', 3),
            (''BPE_3-2.3-2'', 4), (''BPE_2-3.2-3'', 5)],
         token_to_event =
           [(0, ''Pitch_60''), (1, ''Pitch_61''), (2, ''Pitch_62''), (3, ''BPE_0-1.0-1''),
            (4, ''BPE_3-2.3-2''), (5, ''BPE_2-3.2-3'')],
         token_types_indexes = [(''Pitch'', [0, 1, 2]), (''BPE'', [3, 4, 5])]\<rparr>,
      bpe_successions = [(3, [0, 1]), (4, [3, 2]), (5, [2, 3])],
      tokens_types_graph = [(''Pitch'', [''Pitch'', ''BPE'']), (''BPE'', [''Pitch''])]\<rparr>"

text \<open>
  C9, as stated: after an expansion the scan continues from the first inserted token,
  so the output never holds a merged token. The loop adds 1 to \<open>i\<close> after the insertion,
  which steps over the first inserted token: on the nested vocabulary the expansion of
  \<open>4\<close> leaves the merged token \<open>3\<close> in the output, while the \<open>3\<close> that the expansion of
  \<open>5\<close> inserts second is expanded.
\<close>

theorem decompose_bpe_rescan_counterexample:
  "decompose_bpe nested_bpe [4] = Some (Inr [3, 2]) \<and>
   merged_token (vocab nested_bpe) 3 \<and>
   decompose_bpe nested_bpe [5] = Some (Inr [2, 0, 1])"
  by code_simp

text \<open>
  C9, amended: when \<open>decompose_bpe\<close> expands a merged token at position \<open>i\<close> (deleting
  it and inserting its full decomposition there), the scan continues at position
  \<open>i + 1\<close>, the second inserted token; the first inserted token is not examined again.
  On a vocabulary whose tokens are all flat (every merged token's full decomposition is
  primitive only) \<open>decompose_bpe\<close> returns, for every sequence of vocabulary tokens, a
  sequence of primitive tokens without any merged token.
\<close>

theorem decompose_bpe_rescan:
  "(i < length tokens \<and> merged_token v (tokens ! i) \<and>
      full_decomposition v (tokens ! i) = Inr ds \<longrightarrow>
      decompose_loop v tokens i =
        decompose_loop v (take i tokens @ ds @ drop (Suc i) tokens) (i + 1)) \<and>
   (flat_vocab (vocab self) \<and> set s \<subseteq> set (dict_keys (token_to_event (vocab self))) \<longrightarrow>
      (\<exists>out. decompose_bpe self s = Some (Inr out) \<and>
         list_all (primitive_token (vocab self)) out \<and>
         \<not> list_ex (merged_token (vocab self)) out))"
proof (intro conjI impI)
  assume "i < length tokens \<and> merged_token v (tokens ! i) \<and>
      full_decomposition v (tokens ! i) = Inr ds"
  then show "decompose_loop v tokens i =
        decompose_loop v (take i tokens @ ds @ drop (Suc i) tokens) (i + 1)"
    using decompose_loop_merged by blast
next
  assume a: "flat_vocab (vocab self) \<and> set s \<subseteq> set (dict_keys (token_to_event (vocab self)))"
  then have f: "list_all (flat_token (vocab self)) s"
    by (auto simp: flat_vocab_def list_all_iff)
  then have "list_all (flat_token (vocab self)) (drop 0 s)" by simp
  from decompose_loop_flat [OF this]
  have d: "decompose_bpe self s = Some (Inr (expand_all (vocab self) s))"
    by (simp add: decompose_bpe_def)
  have p: "list_all (primitive_token (vocab self)) (expand_all (vocab self) s)"
    using expand_all_flat [OF f] .
  then have "\<not> list_ex (merged_token (vocab self)) (expand_all (vocab self) s)"
    by (auto simp: list_all_iff list_ex_iff primitive_not_merged)
  with d p show "\<exists>out. decompose_bpe self s = Some (Inr out) \<and>
         list_all (primitive_token (vocab self)) out \<and>
         \<not> list_ex (merged_token (vocab self)) out"
    by blast
qed

theorem decompose_bpe_rescan_witness:
  "decompose_loop (vocab scenario_learned) [2, 4, 3] 1 =
     decompose_loop (vocab scenario_learned) [2, 0, 1, 3] 2 \<and>
   decompose_bpe scenario_learned [4, 0, 1, 2] = Some (Inr [0, 1, 0, 1, 2]) \<and>
   list_all (primitive_token (vocab scenario_learned)) [0, 1, 0, 1, 2] \<and>
   \<not> list_ex (merged_token (vocab scenario_learned)) [0, 1, 0, 1, 2]"
proof -
  have 1: "(1::nat) < length [2, 4, 3 :: token] \<and>
      merged_token (vocab scenario_learned) ([2, 4, 3] ! 1) \<and>
      full_decomposition (vocab scenario_learned) ([2, 4, 3] ! 1) = Inr [0, 1]"
    by code_simp
  have 2: "flat_vocab (vocab scenario_learned) \<and>
      set [4, 0, 1, 2] \<subseteq> set (dict_keys (token_to_event (vocab scenario_learned)))"
    by code_simp
  have 3: "decompose_bpe scenario_learned [4, 0, 1, 2] = Some (Inr [0, 1, 0, 1, 2])"
    by code_simp
  from decompose_bpe_rescan [of 1 "[2, 4, 3]" "vocab scenario_learned" "[0, 1]"
      scenario_learned "[4, 0, 1, 2]"] 1 2 3
  show ?thesis by (simp add: numeral_2_eq_2)
qed

subsection \<open>Descriptors written by \<open>bpe\<close> are read back\<close>

text \<open>
  The descriptor of a merged token is written with \<open>str\<close> and \<open>join\<close> and read with
  \<open>split\<close> and \<open>int\<close>. For lists of non-negative tokens the reading returns what was
  written: the succession before the dot, the full decomposition after it.
\<close>

lemma split_no_sep: "sep \<notin> set s \<Longrightarrow> split sep s = [s]"
  by (induction s) auto

lemma split_append_sep: "sep \<notin> set a \<Longrightarrow> split sep (a @ sep # b) = a # split sep b"
  by (induction a) auto

lemma split_join:
  "xs \<noteq> [] \<Longrightarrow> \<forall>x\<in>set xs. sep \<notin> set x \<Longrightarrow> split sep (join [sep] xs) = xs"
proof (induction xs)
  case Nil
  then show ?case by simp
next
  case (Cons x xs)
  show ?case
  proof (cases xs)
    case Nil
    with Cons.prems show ?thesis by (simp add: split_no_sep)
  next
    case (Cons y ys)
    with Cons.IH Cons.prems have "split sep (join [sep] (y # ys)) = y # ys" by simp
    moreover have "sep \<notin> set x" using Cons.prems by simp
    ultimately show ?thesis
      using Cons by (simp add: split_append_sep)
  qed
qed

lemma digit_char_digit: "d < 10 \<Longrightarrow> is_digit (digit_char d) \<and> digit_val (digit_char d) = d"
  by (simp add: is_digit_def digit_char_def digit_val_def)

lemma is_digit_not_sep:
  "is_digit c \<Longrightarrow> c \<noteq> CHR ''-'' \<and> c \<noteq> CHR ''.'' \<and> c \<noteq> CHR ''_'' \<and> c \<noteq> CHR ''+''"
  by (auto simp: is_digit_def)

lemma str_nat_digits: "c \<in> set (str_nat n) \<Longrightarrow> is_digit c"
proof (induction n arbitrary: c rule: str_nat.induct)
  case (1 n)
  show ?case
  proof (cases "n < 10")
    case True
    with "1.prems" show ?thesis
      by (simp add: str_nat.simps [of n] digit_char_digit)
  next
    case False
    with "1.prems" "1.IH" show ?thesis
      by (auto simp: str_nat.simps [of n] digit_char_digit)
  qed
qed

lemma str_nat_not_Nil: "str_nat n \<noteq> []"
  by (subst str_nat.simps) simp

lemma nat_of_digits_append:
  "nat_of_digits acc (a @ b) =
     (case nat_of_digits acc a of Inl e \<Rightarrow> Inl e | Inr m \<Rightarrow> nat_of_digits m b)"
  by (induction a arbitrary: acc) auto

lemma nat_of_digits_str_nat: "nat_of_digits 0 (str_nat n) = Inr n"
proof (induction n rule: str_nat.induct)
  case (1 n)
  show ?case
  proof (cases "n < 10")
    case True
    then show ?thesis by (simp add: str_nat.simps [of n] digit_char_digit)
  next
    case False
    then have "nat_of_digits 0 (str_nat (n div 10)) = Inr (n div 10)"
      using "1.IH" by simp
    with False show ?thesis
      by (simp add: str_nat.simps [of n] nat_of_digits_append digit_char_digit)
  qed
qed

lemma int_of_str_str: "0 \<le> x \<Longrightarrow> int_of_str (str x) = Inr x"
proof -
  assume x: "0 \<le> x"
  obtain c cs where s: "str_nat (nat x) = c # cs"
    using str_nat_not_Nil [of "nat x"] by (cases "str_nat (nat x)") auto
  then have "is_digit c" using str_nat_digits [of c "nat x"] by simp
  then have "c \<noteq> CHR ''-''" and "c \<noteq> CHR ''+''"
    using is_digit_not_sep by blast+
  moreover have "nat_of_str (c # cs) = Inr (nat x)"
    using nat_of_digits_str_nat [of "nat x"] by (simp add: nat_of_str_def s)
  ultimately show ?thesis
    using x by (simp add: int_of_str_def str_def s)
qed

lemma map_int_map_str: "\<forall>x\<in>set xs. 0 \<le> x \<Longrightarrow> map_int (map str xs) = Inr xs"
  by (induction xs) (simp_all add: int_of_str_str)

lemma str_chars: "0 \<le> x \<Longrightarrow> c \<in> set (str x) \<Longrightarrow> is_digit c"
  by (simp add: str_def str_nat_digits)

lemma join_chars:
  "c \<in> set (join sep xs) \<Longrightarrow> c \<in> set sep \<or> (\<exists>x\<in>set xs. c \<in> set x)"
  by (induction sep xs rule: join.induct) auto

lemma join_str_chars:
  assumes "\<forall>x\<in>set xs. 0 \<le> x" and "c \<in> set (join ''-'' (map str xs))"
  shows "c = CHR ''-'' \<or> is_digit c"
proof -
  from join_chars [OF assms(2)] consider "c \<in> set ''-''" | x where "x \<in> set xs" "c \<in> set (str x)"
    by auto
  then show ?thesis
  proof cases
    case 1
    then show ?thesis by simp
  next
    case 2
    with assms(1) show ?thesis using str_chars [of x c] by simp
  qed
qed

lemma join_str_no_sep:
  assumes "\<forall>x\<in>set xs. 0 \<le> x"
  shows "CHR ''.'' \<notin> set (join ''-'' (map str xs))" and "CHR ''_'' \<notin> set (join ''-'' (map str xs))"
proof -
  show "CHR ''.'' \<notin> set (join ''-'' (map str xs))"
  proof
    assume "CHR ''.'' \<in> set (join ''-'' (map str xs))"
    from join_str_chars [OF assms this] have "is_digit (CHR ''.'')" by simp
    then show False by (simp add: is_digit_def)
  qed
  show "CHR ''_'' \<notin> set (join ''-'' (map str xs))"
  proof
    assume "CHR ''_'' \<in> set (join ''-'' (map str xs))"
    from join_str_chars [OF assms this] have "is_digit (CHR ''_'')" by simp
    then show False by (simp add: is_digit_def)
  qed
qed

lemma str_no_minus: "0 \<le> x \<Longrightarrow> CHR ''-'' \<notin> set (str x)"
proof
  assume "0 \<le> x" and "CHR ''-'' \<in> set (str x)"
  then have "is_digit (CHR ''-'')" by (rule str_chars)
  then show False by (simp add: is_digit_def)
qed

lemma split_join_str:
  assumes "xs \<noteq> []" and "\<forall>x\<in>set xs. 0 \<le> x"
  shows "split (CHR ''-'') (join ''-'' (map str xs)) = map str xs"
proof -
  have "\<forall>s\<in>set (map str xs). CHR ''-'' \<notin> set s"
    using assms(2) str_no_minus by simp
  with assms(1) show ?thesis
    using split_join [of "map str xs" "CHR ''-''"] by simp
qed

lemma to_replace_str_split:
  assumes "\<forall>x\<in>set a. 0 \<le> x" and "\<forall>x\<in>set b. 0 \<le> x"
  shows "split (CHR ''.'') (to_replace_str a b) =
         [join ''-'' (map str a), join ''-'' (map str b)]"
  using join_str_no_sep(1) [OF assms(1)] join_str_no_sep(1) [OF assms(2)]
  by (simp add: to_replace_str_def split_append_sep split_no_sep)

lemma to_replace_str_no_underscore:
  assumes "\<forall>x\<in>set a. 0 \<le> x" and "\<forall>x\<in>set b. 0 \<le> x"
  shows "CHR ''_'' \<notin> set (to_replace_str a b)"
  using join_str_no_sep(2) [OF assms(1)] join_str_no_sep(2) [OF assms(2)]
  by (simp add: to_replace_str_def)

lemma split_bpe_prefix: "CHR ''_'' \<notin> set s \<Longrightarrow> split (CHR ''_'') (''BPE_'' @ s) = [''BPE'', s]"
  by (simp add: split_no_sep)

lemma bpe_descriptor_decomposition:
  assumes "\<forall>x\<in>set a. 0 \<le> x" and "\<forall>x\<in>set b. 0 \<le> x" and "b \<noteq> []"
  shows "decomposition_of_val (to_replace_str a b) = Inr b"
  using assms
  by (simp add: decomposition_of_val_def to_replace_str_split list_get_def
      split_join_str map_int_map_str)

lemma bpe_descriptor_succession:
  assumes "\<forall>x\<in>set a. 0 \<le> x" and "\<forall>x\<in>set b. 0 \<le> x" and "a \<noteq> []"
  shows "succession_of_event (''BPE_'' @ to_replace_str a b) = Inr a"
proof -
  have "split (CHR ''_'') (''BPE_'' @ to_replace_str a b) = [''BPE'', to_replace_str a b]"
    using to_replace_str_no_underscore [OF assms(1,2)] by (rule split_bpe_prefix)
  then show ?thesis
    using assms
    by (simp only: succession_of_event_def)
       (simp add: to_replace_str_split list_get_def split_join_str map_int_map_str)
qed

subsection \<open>Learning keeps decompositions flat\<close>

text \<open>
  A well-formed vocabulary: its tokens are numbered \<open>0..n-1\<close> in the order of
  insertion, as \<open>add_event\<close> numbers them from the empty vocabulary, and every token is
  flat (a primitive token, or a merged token whose full decomposition is primitive
  only). \<open>bpe_iterations n\<close> runs the body of the learning loop \<open>n\<close> times.
\<close>

definition wf_vocab :: "Vocabulary \<Rightarrow> bool" where
  "wf_vocab v =
     (dict_keys (token_to_event v) = map int [0..<length (token_to_event v)] \<and> flat_vocab v)"

fun bpe_iterations :: "nat \<Rightarrow> BPE \<Rightarrow> sample list \<Rightarrow> py_error + (BPE \<times> sample list)" where
  "bpe_iterations 0 self samples = Inr (self, samples)"
| "bpe_iterations (Suc n) self samples =
     (case bpe_iteration self samples of
        Inl e \<Rightarrow> Inl e
      | Inr (self', samples') \<Rightarrow> bpe_iterations n self' samples')"

lemma bpe_loop_iterations:
  "bpe_loop self samples vocab_size =
   bpe_iterations (nat (vocab_size - int (len_vocab (vocab self)))) self samples"
proof (induction self samples vocab_size rule: bpe_loop.induct)
  case (1 self samples vocab_size)
  show ?case
  proof (cases "int (len_vocab (vocab self)) < vocab_size")
    case False
    then show ?thesis by (simp add: bpe_loop.simps [of self samples vocab_size])
  next
    case lt: True
    then obtain n where n: "nat (vocab_size - int (len_vocab (vocab self))) = Suc n"
      by (cases "nat (vocab_size - int (len_vocab (vocab self)))") auto
    show ?thesis
    proof (cases "bpe_iteration self samples")
      case (Inl e)
      with lt n show ?thesis by (simp add: bpe_loop.simps [of self samples vocab_size])
    next
      case (Inr r)
      obtain self' samples' where r: "r = (self', samples')" by (cases r)
      have "nat (vocab_size - int (len_vocab (vocab self'))) = n"
        using bpe_iteration_len [of self samples self' samples'] Inr r n by simp
      with "1.IH" [OF lt Inr r [symmetric]] lt n Inr r show ?thesis
        by (simp add: bpe_loop.simps [of self samples vocab_size])
    qed
  qed
qed

text \<open>The keys of \<open>occurrences\<close> are slices of two tokens, and \<open>max\<close> returns one of
  the keys.\<close>

lemma list_all_update:
  "P (k, x) \<Longrightarrow> list_all P al \<Longrightarrow> list_all P (AList.update k x al)"
  by (induction al) auto

lemma count_pair_keys:
  assumes "i + 1 < length track" and "list_all (\<lambda>p. length (fst p) = 2) occurrences"
  shows "list_all (\<lambda>p. length (fst p) = 2) (count_pair track i occurrences)"
proof -
  have "length (slice track i (i + 2)) = 2"
    using assms(1) by (simp add: slice_def)
  then show ?thesis
    using assms(2)
    by (simp add: count_pair_def Let_def dict_set_def list_all_update split: option.splits)
qed

lemma count_pairs_keys:
  "list_all (\<lambda>i. i + 1 < length track) idxs \<Longrightarrow>
   list_all (\<lambda>p. length (fst p) = 2) occurrences \<Longrightarrow>
   list_all (\<lambda>p. length (fst p) = 2) (fold (count_pair track) idxs occurrences)"
proof (induction idxs arbitrary: occurrences)
  case Nil
  then show ?case by simp
next
  case (Cons i idxs)
  from Cons.prems have i: "i + 1 < length track"
    and r: "list_all (\<lambda>i. i + 1 < length track) idxs" by simp_all
  have "list_all (\<lambda>p. length (fst p) = 2) (count_pair track i occurrences)"
    using count_pair_keys [OF i Cons.prems(2)] .
  from Cons.IH [OF r this] show ?case by simp
qed

lemma count_track_keys:
  assumes "list_all (\<lambda>p. length (fst p) = 2) occurrences"
  shows "list_all (\<lambda>p. length (fst p) = 2) (count_track track occurrences)"
proof -
  have "list_all (\<lambda>i. i + 1 < length track) [0..<length track - 1]"
    by (simp add: list_all_iff less_diff_conv)
  from count_pairs_keys [OF this assms] show ?thesis
    by (simp add: count_track_def)
qed

lemma count_sample_keys:
  "list_all (\<lambda>p. length (fst p) = 2) occurrences \<Longrightarrow>
   list_all (\<lambda>p. length (fst p) = 2) (fold count_track sample occurrences)"
proof (induction sample arbitrary: occurrences)
  case Nil
  then show ?case by simp
next
  case (Cons track sample)
  from Cons.IH [OF count_track_keys [OF Cons.prems]] show ?case by simp
qed

lemma count_samples_keys:
  "list_all (\<lambda>p. length (fst p) = 2) occurrences \<Longrightarrow>
   list_all (\<lambda>p. length (fst p) = 2) (fold (\<lambda>sample. fold count_track sample) samples occurrences)"
proof (induction samples arbitrary: occurrences)
  case Nil
  then show ?case by simp
next
  case (Cons sample samples)
  from Cons.IH [OF count_sample_keys [OF Cons.prems]] show ?case by simp
qed

lemma max_from_mem: "max_from (best, m) rest \<in> insert best (fst ` set rest)"
proof (induction rest arbitrary: best m)
  case Nil
  then show ?case by simp
next
  case (Cons p rest)
  obtain k n where p: "p = (k, n)" by (cases p)
  show ?case
  proof (cases "m < n")
    case True
    have "max_from (k, n) rest \<in> insert k (fst ` set rest)" by (rule Cons)
    with True show ?thesis by (auto simp: p)
  next
    case False
    have "max_from (best, m) rest \<in> insert best (fst ` set rest)" by (rule Cons)
    with False show ?thesis by (auto simp: p)
  qed
qed

lemma max_occurrences_pair:
  assumes "max_occurrences (count_occurrences samples) = Inr to_replace"
  shows "length to_replace = 2"
proof -
  have k: "list_all (\<lambda>p. length (fst p) = 2) (count_occurrences samples)"
    unfolding count_occurrences_def by (rule count_samples_keys) simp
  from assms obtain first rest where c: "count_occurrences samples = first # rest"
    and t: "to_replace = max_from first rest"
    by (auto simp: max_occurrences_def split: list.splits)
  obtain best m where f: "first = (best, m)" by (cases first)
  have "max_from (best, m) rest \<in> insert best (fst ` set rest)"
    by (rule max_from_mem)
  then have "to_replace \<in> fst ` set (first # rest)"
    by (auto simp: t f)
  then obtain p where "p \<in> set (count_occurrences samples)" and "to_replace = fst p"
    unfolding c by blast
  with k show ?thesis by (auto simp: list_all_iff)
qed

text \<open>What \<open>flatten_tokens\<close> computes on a flat vocabulary, and what \<open>add_event\<close> does
  to the lookups of a numbered vocabulary.\<close>

lemma unpack2_Inr: "unpack2 pieces = Inr (a, b) \<Longrightarrow> pieces = [a, b]"
  by (auto simp: unpack2_def split: list.splits)

lemma dict_get_mem: "dict_get d k = Inr x \<Longrightarrow> k \<in> fst ` set d"
  by (auto simp: dict_get_def split: option.splits dest: map_of_SomeD intro: rev_image_eqI)

lemma flat_vocab_lookup:
  assumes "flat_vocab v" and "dict_get (token_to_event v) tok = Inr event"
  shows "flat_token v tok"
  using assms dict_get_mem [OF assms(2)]
  by (auto simp: flat_vocab_def list_all_iff dict_keys_def)

lemma flatten_tokens_flat:
  "flat_vocab v \<Longrightarrow> flatten_tokens v toks acc = Inr bis \<Longrightarrow>
   bis = acc @ expand_all v toks \<and> list_all (flat_token v) toks"
proof (induction toks arbitrary: acc)
  case Nil
  then show ?case by (simp add: expand_all_def)
next
  case (Cons tok toks)
  from Cons.prems(2) obtain event where e: "dict_get (token_to_event v) tok = Inr event"
    by (auto split: sum.splits)
  from flat_vocab_lookup [OF Cons.prems(1) e] have f: "flat_token v tok" .
  from f show ?case
  proof (cases rule: flat_token_cases)
    case 1
    then obtain token_type token_val where
      u: "split (CHR ''_'') event = [token_type, token_val]" and t: "token_type \<noteq> ''BPE''"
      using e
      by (auto simp: primitive_token_def vocab_getitem_int_def split: sum.splits
          dest: unpack2_Inr)
    from Cons.prems(2) e u t have "flatten_tokens v toks (acc @ [tok]) = Inr bis"
      by (simp add: list_get_def)
    from Cons.IH [OF Cons.prems(1) this] f 1 show ?thesis
      by (simp add: expand_all_def primitive_expand)
  next
    case (2 ds)
    then obtain token_val where
      u: "split (CHR ''_'') event = [''BPE'', token_val]" and
      d: "decomposition_of_val token_val = Inr ds"
      using e
      by (auto simp: merged_token_def full_decomposition_def vocab_getitem_int_def
          split: sum.splits dest: unpack2_Inr)
    from Cons.prems(2) e u d have "flatten_tokens v toks (acc @ ds) = Inr bis"
      by (simp add: list_get_def)
    from Cons.IH [OF Cons.prems(1) this] f 2(2) show ?thesis
      by (simp add: expand_all_def expand_def)
  qed
qed

lemma numbered_keys:
  assumes "dict_keys d = map int [0..<length d]"
  shows "fst ` set d = int ` {0..<length d}"
proof -
  have "fst ` set d = set (map fst d)" by simp
  also have "map fst d = map int [0..<length d]"
    using assms by (simp add: dict_keys_def)
  finally show ?thesis by simp
qed

lemma add_event_token_to_event:
  assumes "add_event v e = Inr v'"
    and "dict_keys (token_to_event v) = map int [0..<length (token_to_event v)]"
  shows "token_to_event v' = token_to_event v @ [(int (length (token_to_event v)), str_event e)]"
proof -
  have "int (length (token_to_event v)) \<notin> fst ` set (token_to_event v)"
    using numbered_keys [OF assms(2)] by auto
  with assms(1) show ?thesis
    by (auto simp: add_event_def Let_def dict_set_def update_fresh split: if_splits)
qed

lemma lookup_append:
  assumes "token_to_event v' = token_to_event v @ [(k, event)]"
    and "vocab_getitem_int v tok = Inr x"
  shows "vocab_getitem_int v' tok = Inr x"
  using assms
  by (auto simp: vocab_getitem_int_def dict_get_def map_add_def split: option.splits)

lemma lookup_new:
  assumes "token_to_event v' = token_to_event v @ [(k, event)]"
    and "k \<notin> fst ` set (token_to_event v)"
  shows "vocab_getitem_int v' k = Inr event"
proof -
  have "map_of (token_to_event v) k = None"
    using assms(2) by (simp add: map_of_eq_None_iff)
  with assms(1) show ?thesis
    by (simp add: vocab_getitem_int_def dict_get_def map_add_def)
qed

lemma primitive_append:
  assumes "token_to_event v' = token_to_event v @ [(k, event)]" and "primitive_token v tok"
  shows "primitive_token v' tok"
proof -
  from assms(2) obtain x where x: "vocab_getitem_int v tok = Inr x"
    by (auto simp: primitive_token_def split: sum.splits)
  from lookup_append [OF assms(1) x] x assms(2) show ?thesis
    by (simp add: primitive_token_def)
qed

lemma flat_append:
  assumes "token_to_event v' = token_to_event v @ [(k, event)]" and "flat_token v tok"
  shows "flat_token v' tok \<and> full_decomposition v' tok = full_decomposition v tok"
proof -
  from assms(2) obtain x where x: "vocab_getitem_int v tok = Inr x"
    by (auto simp: flat_token_def full_decomposition_def split: sum.splits)
  have fd: "full_decomposition v' tok = full_decomposition v tok"
    using lookup_append [OF assms(1) x] x by (simp add: full_decomposition_def)
  from assms(2) obtain ds where ds: "full_decomposition v tok = Inr ds"
    and p: "list_all (primitive_token v) ds"
    by (auto simp: flat_token_def split: sum.splits)
  have "list_all (primitive_token v') ds"
    using p primitive_append [OF assms(1)] by (auto simp: list_all_iff)
  with fd ds show ?thesis by (simp add: flat_token_def)
qed

lemma primitive_in_vocab:
  "primitive_token v tok \<Longrightarrow> tok \<in> fst ` set (token_to_event v)"
  by (auto simp: primitive_token_def vocab_getitem_int_def split: sum.splits dest: dict_get_mem)

lemma flat_in_vocab:
  "flat_token v tok \<Longrightarrow> tok \<in> fst ` set (token_to_event v)"
  by (auto simp: flat_token_def full_decomposition_def vocab_getitem_int_def
      split: sum.splits dest: dict_get_mem)

lemma numbered_nonneg:
  assumes "dict_keys (token_to_event v) = map int [0..<length (token_to_event v)]"
    and "tok \<in> fst ` set (token_to_event v)"
  shows "0 \<le> tok"
  using numbered_keys [OF assms(1)] assms(2) by auto

lemma expand_not_Nil: "flat_token v tok \<Longrightarrow> expand v tok \<noteq> []"
proof (erule flat_token_cases)
  assume "primitive_token v tok"
  then show ?thesis by (simp add: primitive_expand)
next
  fix ds
  assume "full_decomposition v tok = Inr ds" and "ds \<noteq> []"
  then show ?thesis by (simp add: expand_def)
qed

lemma expand_all_not_Nil:
  "list_all (flat_token v) toks \<Longrightarrow> toks \<noteq> [] \<Longrightarrow> expand_all v toks \<noteq> []"
  by (cases toks) (simp_all add: expand_all_def expand_not_Nil)

lemma bpe_iteration_parts:
  assumes "bpe_iteration self samples = Inr (self', samples')"
  shows "\<exists>to_replace bis v'.
     max_occurrences (count_occurrences samples) = Inr to_replace \<and>
     flatten_tokens (vocab self) to_replace [] = Inr bis \<and>
     add_event (vocab self) (bpe_event (to_replace_str to_replace bis)) = Inr v' \<and>
     replace_in_samples v' (''BPE_'' @ to_replace_str to_replace bis) to_replace samples = Inr samples' \<and>
     self' = self\<lparr>vocab := v'\<rparr>"
  using assms
  by (auto simp: bpe_iteration_def Let_def split: sum.splits)

lemma str_bpe_event: "str_event (bpe_event s) = ''BPE_'' @ s"
  by (simp add: str_event_def bpe_event_def)

text \<open>Registering the merge of a pair in a well-formed vocabulary.\<close>

lemma register_merge_wf:
  assumes wf: "wf_vocab v"
    and len: "to_replace \<noteq> []"
    and fl: "flatten_tokens v to_replace [] = Inr bis"
    and ad: "add_event v (bpe_event (to_replace_str to_replace bis)) = Inr v'"
  shows "wf_vocab v'"
    and "full_decomposition v' (int (length (token_to_event v))) = Inr bis"
    and "merged_token v' (int (length (token_to_event v)))"
    and "vocab_getitem_int v' (int (length (token_to_event v))) =
           Inr (''BPE_'' @ to_replace_str to_replace bis)"
    and "token_to_event v' = token_to_event v @
           [(int (length (token_to_event v)), ''BPE_'' @ to_replace_str to_replace bis)]"
    and "bis = expand_all v to_replace"
    and "list_all (flat_token v) to_replace"
proof -
  let ?n = "int (length (token_to_event v))"
  let ?s = "to_replace_str to_replace bis"
  from wf have num: "dict_keys (token_to_event v) = map int [0..<length (token_to_event v)]"
    and flat: "flat_vocab v"
    by (simp_all add: wf_vocab_def)
  from flatten_tokens_flat [OF flat fl] have bis: "bis = expand_all v to_replace"
    and ft: "list_all (flat_token v) to_replace" by simp_all
  have pb: "list_all (primitive_token v) bis"
    using expand_all_flat [OF ft] bis by simp
  have bne: "bis \<noteq> []"
    using expand_all_not_Nil [OF ft len] bis by simp
  have nn_a: "\<forall>x\<in>set to_replace. 0 \<le> x"
    using ft flat_in_vocab numbered_nonneg [OF num] by (auto simp: list_all_iff)
  have nn_b: "\<forall>x\<in>set bis. 0 \<le> x"
    using pb primitive_in_vocab numbered_nonneg [OF num] by (auto simp: list_all_iff)
  have t2e: "token_to_event v' = token_to_event v @ [(?n, ''BPE_'' @ ?s)]"
    using add_event_token_to_event [OF ad num] by (simp add: str_bpe_event)
  have fresh: "?n \<notin> fst ` set (token_to_event v)"
    using numbered_keys [OF num] by auto
  have look: "vocab_getitem_int v' ?n = Inr (''BPE_'' @ ?s)"
    using lookup_new [OF t2e fresh] .
  have sp: "split (CHR ''_'') (''BPE_'' @ ?s) = [''BPE'', ?s]"
    using to_replace_str_no_underscore [OF nn_a nn_b] by (rule split_bpe_prefix)
  have dec: "decomposition_of_val ?s = Inr bis"
    using bpe_descriptor_decomposition [OF nn_a nn_b bne] .
  show fd: "full_decomposition v' ?n = Inr bis"
    using look sp dec by (simp add: full_decomposition_def unpack2_def)
  show "merged_token v' ?n"
    using look sp by (simp add: merged_token_def unpack2_def)
  have pb': "list_all (primitive_token v') bis"
    using pb primitive_append [OF t2e] by (auto simp: list_all_iff)
  have new: "flat_token v' ?n"
    using fd pb' by (simp add: flat_token_def)
  have old: "list_all (flat_token v') (dict_keys (token_to_event v))"
    using flat flat_append [OF t2e] by (auto simp: flat_vocab_def list_all_iff)
  have keys: "dict_keys (token_to_event v') = dict_keys (token_to_event v) @ [?n]"
    by (simp add: t2e dict_keys_def)
  have "flat_vocab v'"
    using old new by (simp add: flat_vocab_def keys)
  moreover have "dict_keys (token_to_event v') = map int [0..<length (token_to_event v')]"
  proof -
    have "length (token_to_event v') = Suc (length (token_to_event v))"
      by (simp add: t2e)
    then show ?thesis by (simp add: keys num)
  qed
  ultimately show "wf_vocab v'" by (simp add: wf_vocab_def)
  show "vocab_getitem_int v' ?n = Inr (''BPE_'' @ ?s)" by (rule look)
  show "token_to_event v' = token_to_event v @ [(?n, ''BPE_'' @ ?s)]" by (rule t2e)
  show "bis = expand_all v to_replace" by (rule bis)
  show "list_all (flat_token v) to_replace" by (rule ft)
qed

lemma bpe_iteration_wf:
  assumes "wf_vocab (vocab self)" and "bpe_iteration self samples = Inr (self', samples')"
  shows "wf_vocab (vocab self')"
proof -
  from bpe_iteration_parts [OF assms(2)] obtain to_replace bis v' where
    m: "max_occurrences (count_occurrences samples) = Inr to_replace" and
    f: "flatten_tokens (vocab self) to_replace [] = Inr bis" and
    a: "add_event (vocab self) (bpe_event (to_replace_str to_replace bis)) = Inr v'" and
    s: "self' = self\<lparr>vocab := v'\<rparr>"
    by blast
  have "to_replace \<noteq> []" using max_occurrences_pair [OF m] by auto
  from register_merge_wf(1) [OF assms(1) this f a] s show ?thesis by simp
qed

lemma bpe_iterations_wf:
  "wf_vocab (vocab self) \<Longrightarrow> bpe_iterations n self samples = Inr (self', samples') \<Longrightarrow>
   wf_vocab (vocab self')"
proof (induction n arbitrary: self samples)
  case 0
  then show ?case by simp
next
  case (Suc n)
  from Suc.prems(2) obtain self1 samples1 where
    i: "bpe_iteration self samples = Inr (self1, samples1)" and
    r: "bpe_iterations n self1 samples1 = Inr (self', samples')"
    by (auto split: sum.splits)
  from Suc.IH [OF bpe_iteration_wf [OF Suc.prems(1) i] r] show ?case .
qed

lemma wf_vocab_cong:
  assumes "token_to_event v' = token_to_event v"
  shows "wf_vocab v' = wf_vocab v"
proof -
  have l: "vocab_getitem_int v' = vocab_getitem_int v"
    using assms by (simp add: vocab_getitem_int_def fun_eq_iff)
  then have p: "primitive_token v' = primitive_token v"
    by (simp add: primitive_token_def fun_eq_iff)
  from l have fd: "full_decomposition v' = full_decomposition v"
    by (simp add: full_decomposition_def fun_eq_iff)
  have "flat_token v' = flat_token v"
    unfolding flat_token_def p fd by (rule refl)
  then show ?thesis
    using assms by (simp add: wf_vocab_def flat_vocab_def)
qed

lemma bpe_wf:
  assumes "wf_vocab (vocab self)" and "bpe self samples vocab_size = Inr (self', samples')"
  shows "wf_vocab (vocab self')"
proof -
  from bpe_result_event_to_token [OF assms(2)] obtain self1 where
    l: "bpe_loop self samples vocab_size = Inr (self1, samples')" and
    t: "token_to_event (vocab self') = token_to_event (vocab self1)"
    by blast
  from l have "wf_vocab (vocab self1)"
    using bpe_iterations_wf [OF assms(1)] by (simp add: bpe_loop_iterations)
  with wf_vocab_cong [OF t] show ?thesis by simp
qed

lemma merged_in_vocab: "merged_token v tok \<Longrightarrow> tok \<in> fst ` set (token_to_event v)"
  by (auto simp: merged_token_def vocab_getitem_int_def split: sum.splits dest: dict_get_mem)

text \<open>The scenario's wrapper after two passes of the learning loop (the flag \<open>has_bpe\<close>
  and the merge table are only set after the loop).\<close>

definition scenario_twice :: BPE where
  "scenario_twice =
     \<lparr>has_bpe = False,
      vocab =
        \<lparr>event_to_token =
           [(''Pitch_60'', 0), (''Pitch_61'', 1), (''Pitch_62'', 2), (''Pitch_63'', 3),
            (''BPE_0-1.0-1'', 4), (''BPE_4-4.0-1-0-1'', 5)],
         token_to_event =
           [(0, ''Pitch_60''), (1, ''Pitch_61''), (2, ''Pitch_62''), (3, ''Pitch_63''),
            (4, ''BPE_0-1.0-1''), (5, ''BPE_4-4.0-1-0-1'')],
         token_types_indexes = [(''Pitch'', [0, 1, 2, 3]), (''BPE'', [4, 5])]\<rparr>,
      bpe_successions = [],
      tokens_types_graph = [(''Pitch'', [''Pitch''])]\<rparr>"

text \<open>
  C4: starting from a well-formed vocabulary, after every number \<open>n\<close> of completed
  passes of the learning loop (the states the loop of \<open>bpe\<close> goes through, lemma
  \<open>bpe_loop_iterations\<close>), every merged token of the vocabulary has a full decomposition
  that holds primitive tokens only.
\<close>

theorem learner_keeps_flat:
  assumes "wf_vocab (vocab self)" and "bpe_iterations n self samples = Inr (self', samples')"
  shows "\<forall>tok. merged_token (vocab self') tok \<longrightarrow>
           (\<exists>ds. full_decomposition (vocab self') tok = Inr ds \<and>
                 list_all (primitive_token (vocab self')) ds)"
proof (intro allI impI)
  fix tok
  assume m: "merged_token (vocab self') tok"
  have "wf_vocab (vocab self')"
    using bpe_iterations_wf [OF assms] .
  then have "flat_vocab (vocab self')" by (simp add: wf_vocab_def)
  with merged_in_vocab [OF m] have "flat_token (vocab self') tok"
    by (auto simp: flat_vocab_def list_all_iff dict_keys_def)
  then show "\<exists>ds. full_decomposition (vocab self') tok = Inr ds \<and>
                 list_all (primitive_token (vocab self')) ds"
    by (auto simp: flat_token_def split: sum.splits)
qed

theorem learner_keeps_flat_witness:
  "bpe_iterations 2 scenario_bpe [[[0, 1, 0, 1, 2]]] = Inr (scenario_twice, [[[5, 2]]]) \<and>
   merged_token (vocab scenario_twice) 5 \<and>
   full_decomposition (vocab scenario_twice) 5 = Inr [0, 1, 0, 1] \<and>
   list_all (primitive_token (vocab scenario_twice)) [0, 1, 0, 1]"
proof -
  have wf: "wf_vocab (vocab scenario_bpe)"
    by code_simp
  have it: "bpe_iterations 2 scenario_bpe [[[0, 1, 0, 1, 2]]] = Inr (scenario_twice, [[[5, 2]]])"
    by code_simp
  have m: "merged_token (vocab scenario_twice) 5"
    by code_simp
  have d: "full_decomposition (vocab scenario_twice) 5 = Inr [0, 1, 0, 1]"
    by code_simp
  from learner_keeps_flat [OF wf it] m d it show ?thesis
    by auto
qed

subsection \<open>Round trip\<close>

text \<open>
  An entry of the merge table is consistent with the vocabulary when its succession is
  not empty, the merged token and the tokens of the succession are flat, and the full
  decomposition of the merged token is the expansion of the succession. Replacing the
  succession by the token then leaves the expansion of a sequence unchanged.
\<close>

definition consistent_merge :: "Vocabulary \<Rightarrow> token \<times> token list \<Rightarrow> bool" where
  "consistent_merge v m =
     (snd m \<noteq> [] \<and> flat_token v (fst m) \<and> list_all (flat_token v) (snd m) \<and>
      full_decomposition v (fst m) = Inr (expand_all v (snd m)))"

definition consistent_merges :: "BPE \<Rightarrow> bool" where
  "consistent_merges self = list_all (consistent_merge (vocab self)) (bpe_successions self)"

lemma slice_match:
  assumes "slice tokens i (i + length token_succession) = token_succession"
    and "i + length token_succession \<le> length tokens"
  shows "tokens = take i tokens @ token_succession @ drop (i + length token_succession) tokens"
proof -
  have "take (length token_succession) (drop i tokens) = token_succession"
    using assms(1) by (simp add: slice_def)
  then have "drop i tokens = token_succession @ drop (length token_succession) (drop i tokens)"
    by (metis append_take_drop_id)
  then have "tokens = take i tokens @ token_succession @ drop (length token_succession) (drop i tokens)"
    by (metis append_take_drop_id)
  then show ?thesis by (simp add: add.commute)
qed

lemma replace_match:
  assumes "0 < length token_succession" and "i + length token_succession \<le> length tokens"
  shows "list_set tokens i tok = Inr (tokens[i := tok])"
    and "del_next (length token_succession - 1) (tokens[i := tok]) i =
         Inr (take i tokens @ tok # drop (i + length token_succession) tokens)"
proof -
  from assms have i: "i < length tokens" by linarith
  then show "list_set tokens i tok = Inr (tokens[i := tok])"
    by (simp add: list_set_def)
  from assms(1) obtain k where k: "length token_succession = Suc k"
    by (cases "length token_succession") auto
  have "i + k < length (tokens[i := tok])"
    using assms(2) k by simp
  from del_next_ok [OF this]
  have "del_next k (tokens[i := tok]) i =
        Inr (take (Suc i) (tokens[i := tok]) @ drop (Suc i + k) (tokens[i := tok]))" .
  moreover have "take (Suc i) (tokens[i := tok]) = take i tokens @ [tok]"
    using i by (simp add: take_Suc_conv_app_nth)
  ultimately show "del_next (length token_succession - 1) (tokens[i := tok]) i =
         Inr (take i tokens @ tok # drop (i + length token_succession) tokens)"
    by (simp add: k)
qed

lemma apply_succession_expand:
  "apply_succession tok token_succession tokens i = Inr tokens' \<Longrightarrow>
   token_succession \<noteq> [] \<Longrightarrow> expand v tok = expand_all v token_succession \<Longrightarrow>
   expand_all v tokens' = expand_all v tokens \<and> set tokens' \<subseteq> insert tok (set tokens)"
proof (induction tok token_succession tokens i rule: apply_succession.induct)
  case (1 tok token_succession tokens i)
  show ?case
  proof (cases "int i \<le> int (length tokens) - int (length token_succession)")
    case False
    with "1.prems"(1) show ?thesis by (auto simp: apply_succession.simps)
  next
    case le: True
    show ?thesis
    proof (cases "slice tokens i (i + length token_succession) = token_succession")
      case False
      with le "1.prems" "1.IH"(2) show ?thesis
        by (simp add: apply_succession.simps [of tok token_succession tokens i])
    next
      case m: True
      have n: "0 < length token_succession" using "1.prems"(2) by simp
      from le have b: "i + length token_succession \<le> length tokens" by linarith
      let ?t2 = "take i tokens @ tok # drop (i + length token_succession) tokens"
      note s = replace_match(1) [OF n b, of tok]
      note d = replace_match(2) [OF n b, of tok]
      from le m "1.prems"(1) s d have
        r: "apply_succession tok token_succession ?t2 (i + 1) = Inr tokens'"
        by (simp add: apply_succession.simps [of tok token_succession tokens i])
      from "1.IH"(1) [OF le m s d r "1.prems"(2,3)]
      have e: "expand_all v tokens' = expand_all v ?t2"
        and u: "set tokens' \<subseteq> insert tok (set ?t2)" by simp_all
      have "expand_all v ?t2 =
          expand_all v (take i tokens @ token_succession @ drop (i + length token_succession) tokens)"
        using "1.prems"(3) by (simp add: expand_all_def)
      also have "\<dots> = expand_all v tokens"
        using slice_match [OF m b] by simp
      finally have "expand_all v tokens' = expand_all v tokens" using e by simp
      moreover have "set ?t2 \<subseteq> insert tok (set tokens)"
        using set_take_subset [of i tokens] set_drop_subset [of "i + length token_succession" tokens]
        by auto
      ultimately show ?thesis using u by auto
    qed
  qed
qed

lemma consistent_merge_expand:
  "consistent_merge v (tok, token_succession) \<Longrightarrow> expand v tok = expand_all v token_succession"
  by (simp add: consistent_merge_def expand_def)

lemma apply_round_expand:
  "apply_round items tokens = Inr tokens' \<Longrightarrow> list_all (consistent_merge v) items \<Longrightarrow>
   expand_all v tokens' = expand_all v tokens \<and> set tokens' \<subseteq> fst ` set items \<union> set tokens"
proof (induction items arbitrary: tokens)
  case Nil
  then show ?case by simp
next
  case (Cons item items)
  obtain tok token_succession where item: "item = (tok, token_succession)"
    by (cases item)
  from Cons.prems(1) obtain tokens1 where
    a: "apply_succession tok token_succession tokens 0 = Inr tokens1" and
    b: "apply_round items tokens1 = Inr tokens'"
    by (auto simp: item split: sum.splits)
  from Cons.prems(2) have c: "consistent_merge v (tok, token_succession)"
    and rest: "list_all (consistent_merge v) items"
    by (simp_all add: item)
  have ne: "token_succession \<noteq> []" using c by (simp add: consistent_merge_def)
  from apply_succession_expand [OF a ne consistent_merge_expand [OF c]]
  have 1: "expand_all v tokens1 = expand_all v tokens"
    and 2: "set tokens1 \<subseteq> insert tok (set tokens)" by simp_all
  from Cons.IH [OF b rest]
  have 3: "expand_all v tokens' = expand_all v tokens1"
    and 4: "set tokens' \<subseteq> fst ` set items \<union> set tokens1" by simp_all
  from 1 2 3 4 show ?case by (auto simp: item)
qed

lemma apply_loop_expand:
  "apply_loop successions previous_len tokens = Inr out \<Longrightarrow>
   list_all (consistent_merge v) successions \<Longrightarrow>
   expand_all v out = expand_all v tokens \<and> set out \<subseteq> fst ` set successions \<union> set tokens"
proof (induction successions previous_len tokens rule: apply_loop.induct)
  case (1 successions previous_len tokens)
  show ?case
  proof (cases "previous_len = length tokens")
    case True
    with "1.prems"(1) show ?thesis by (auto simp: apply_loop.simps)
  next
    case False
    with "1.prems"(1) obtain tokens' where
      r: "apply_round successions tokens = Inr tokens'" and
      l: "apply_loop successions (length tokens) tokens' = Inr out"
      by (auto simp: apply_loop.simps [of successions previous_len tokens] split: sum.splits)
    from apply_round_expand [OF r "1.prems"(2)]
    have 1: "expand_all v tokens' = expand_all v tokens"
      and 2: "set tokens' \<subseteq> fst ` set successions \<union> set tokens" by simp_all
    from "1.IH" [OF False r l "1.prems"(2)]
    have 3: "expand_all v out = expand_all v tokens'"
      and 4: "set out \<subseteq> fst ` set successions \<union> set tokens'" by simp_all
    from 1 2 3 4 show ?thesis by auto
  qed
qed

lemma consistent_merges_not_empty:
  "list_all (consistent_merge v) items \<Longrightarrow>
   list_all (\<lambda>(tok, token_succession). token_succession \<noteq> []) items"
  by (induction items) (auto simp: consistent_merge_def)

text \<open>
  What learning establishes. A vocabulary is ready for learning when it is well-formed
  and every token of its \<open>BPE\<close> index is a learned merge: its descriptor holds a
  succession of two flat tokens whose expansions, concatenated, are its full
  decomposition. A base vocabulary without merged tokens is ready.
\<close>

definition learned_merge :: "Vocabulary \<Rightarrow> token \<times> token list \<Rightarrow> bool" where
  "learned_merge v m = (length (snd m) = 2 \<and> consistent_merge v m)"

definition indexed_merge :: "Vocabulary \<Rightarrow> token \<Rightarrow> bool" where
  "indexed_merge v tok =
     (case vocab_getitem_int v tok of
        Inl e \<Rightarrow> False
      | Inr event \<Rightarrow>
          (case succession_of_event event of
             Inl e \<Rightarrow> False
           | Inr token_succession \<Rightarrow> learned_merge v (tok, token_succession)))"

definition learner_ready :: "Vocabulary \<Rightarrow> bool" where
  "learner_ready v = (wf_vocab v \<and> list_all (indexed_merge v) (tokens_of_type v ''BPE''))"

lemma expand_all_append_vocab:
  assumes "token_to_event v' = token_to_event v @ [(k, event)]"
    and "list_all (flat_token v) toks"
  shows "expand_all v' toks = expand_all v toks \<and> list_all (flat_token v') toks"
  using assms(2)
proof (induction toks)
  case Nil
  then show ?case by (simp add: expand_all_def)
next
  case (Cons tok toks)
  then have f: "flat_token v tok" and r: "list_all (flat_token v) toks" by simp_all
  from flat_append [OF assms(1) f] Cons.IH [OF r] show ?case
    by (simp add: expand_all_def expand_def)
qed

lemma consistent_merge_append:
  assumes "token_to_event v' = token_to_event v @ [(k, event)]"
    and "consistent_merge v m"
  shows "consistent_merge v' m"
proof -
  from assms(2) have ne: "snd m \<noteq> []" and f: "flat_token v (fst m)"
    and fs: "list_all (flat_token v) (snd m)"
    and d: "full_decomposition v (fst m) = Inr (expand_all v (snd m))"
    by (simp_all add: consistent_merge_def)
  from flat_append [OF assms(1) f] expand_all_append_vocab [OF assms(1) fs] ne d
  show ?thesis by (simp add: consistent_merge_def)
qed

lemma indexed_merge_append:
  assumes "token_to_event v' = token_to_event v @ [(k, event)]"
    and "indexed_merge v tok"
  shows "indexed_merge v' tok"
proof -
  from assms(2) obtain ev token_succession where
    l: "vocab_getitem_int v tok = Inr ev" and
    s: "succession_of_event ev = Inr token_succession" and
    m: "learned_merge v (tok, token_succession)"
    by (auto simp: indexed_merge_def split: sum.splits)
  from m consistent_merge_append [OF assms(1)]
  have "learned_merge v' (tok, token_succession)"
    by (simp add: learned_merge_def)
  with lookup_append [OF assms(1) l] s show ?thesis
    by (simp add: indexed_merge_def)
qed

lemma add_event_index:
  assumes "add_event v (bpe_event s) = Inr v'"
  shows "tokens_of_type v' ''BPE'' = tokens_of_type v ''BPE'' @ [int (length (token_to_event v))]"
  using assms
  by (auto simp: add_event_def Let_def tokens_of_type_def [of v'] dict_set_def update_conv'
      bpe_event_def split: if_splits)

lemma bpe_iteration_ready:
  assumes "learner_ready (vocab self)" and "bpe_iteration self samples = Inr (self', samples')"
  shows "learner_ready (vocab self')"
proof -
  let ?v = "vocab self"
  let ?n = "int (length (token_to_event ?v))"
  from assms(1) have wf: "wf_vocab ?v"
    and idx: "list_all (indexed_merge ?v) (tokens_of_type ?v ''BPE'')"
    by (simp_all add: learner_ready_def)
  from bpe_iteration_parts [OF assms(2)] obtain to_replace bis v' where
    m: "max_occurrences (count_occurrences samples) = Inr to_replace" and
    f: "flatten_tokens ?v to_replace [] = Inr bis" and
    a: "add_event ?v (bpe_event (to_replace_str to_replace bis)) = Inr v'" and
    s: "self' = self\<lparr>vocab := v'\<rparr>"
    by blast
  have len: "length to_replace = 2" using max_occurrences_pair [OF m] .
  then have ne: "to_replace \<noteq> []" by auto
  note r = register_merge_wf [OF wf ne f a]
  from wf have num: "dict_keys (token_to_event ?v) = map int [0..<length (token_to_event ?v)]"
    by (simp add: wf_vocab_def)
  have nn_a: "\<forall>x\<in>set to_replace. 0 \<le> x"
    using r(7) flat_in_vocab numbered_nonneg [OF num] by (auto simp: list_all_iff)
  have pb: "list_all (primitive_token ?v) bis"
    using expand_all_flat [OF r(7)] r(6) by simp
  have nn_b: "\<forall>x\<in>set bis. 0 \<le> x"
    using pb primitive_in_vocab numbered_nonneg [OF num] by (auto simp: list_all_iff)
  have su: "succession_of_event (''BPE_'' @ to_replace_str to_replace bis) = Inr to_replace"
    using bpe_descriptor_succession [OF nn_a nn_b ne] .
  have fl': "flat_token v' ?n"
    using r(2) pb primitive_append [OF r(5)] by (auto simp: flat_token_def list_all_iff)
  have ex: "expand_all v' to_replace = expand_all ?v to_replace"
    and fs: "list_all (flat_token v') to_replace"
    using expand_all_append_vocab [OF r(5) r(7)] by simp_all
  have "consistent_merge v' (?n, to_replace)"
    using ne fl' fs r(2) r(6) ex by (simp add: consistent_merge_def)
  then have new: "indexed_merge v' ?n"
    using r(4) su len by (simp add: indexed_merge_def learned_merge_def)
  have old: "list_all (indexed_merge v') (tokens_of_type ?v ''BPE'')"
    using idx indexed_merge_append [OF r(5)] by (auto simp: list_all_iff)
  from old new have "list_all (indexed_merge v') (tokens_of_type v' ''BPE'')"
    by (simp add: add_event_index [OF a])
  with r(1) s show ?thesis by (simp add: learner_ready_def)
qed

lemma bpe_iterations_ready:
  "learner_ready (vocab self) \<Longrightarrow> bpe_iterations n self samples = Inr (self', samples') \<Longrightarrow>
   learner_ready (vocab self')"
proof (induction n arbitrary: self samples)
  case 0
  then show ?case by simp
next
  case (Suc n)
  from Suc.prems(2) obtain self1 samples1 where
    i: "bpe_iteration self samples = Inr (self1, samples1)" and
    r: "bpe_iterations n self1 samples1 = Inr (self', samples')"
    by (auto split: sum.splits)
  from Suc.IH [OF bpe_iteration_ready [OF Suc.prems(1) i] r] show ?case .
qed

lemma successions_of_learned:
  "successions_of v toks d = Inr d' \<Longrightarrow> list_all (indexed_merge v) toks \<Longrightarrow>
   list_all (learned_merge v) d \<Longrightarrow> list_all (learned_merge v) d'"
proof (induction toks arbitrary: d)
  case Nil
  then show ?case by simp
next
  case (Cons tok toks)
  from Cons.prems(1) obtain event token_succession where
    e: "dict_get (token_to_event v) tok = Inr event" and
    s: "succession_of_event event = Inr token_succession" and
    r: "successions_of v toks (dict_set d tok token_succession) = Inr d'"
    by (auto split: sum.splits)
  from Cons.prems(2) have i: "indexed_merge v tok" and rest: "list_all (indexed_merge v) toks"
    by simp_all
  from i e s have "learned_merge v (tok, token_succession)"
    by (simp add: indexed_merge_def vocab_getitem_int_def)
  then have "list_all (learned_merge v) (dict_set d tok token_succession)"
    using Cons.prems(3) by (simp add: dict_set_def list_all_update)
  from Cons.IH [OF r rest this] show ?case .
qed

lemma learned_merge_cong:
  assumes "token_to_event v' = token_to_event v"
  shows "learned_merge v' = learned_merge v"
proof -
  have l: "vocab_getitem_int v' = vocab_getitem_int v"
    using assms by (simp add: vocab_getitem_int_def fun_eq_iff)
  then have p: "primitive_token v' = primitive_token v"
    by (simp add: primitive_token_def fun_eq_iff)
  from l have fd: "full_decomposition v' = full_decomposition v"
    by (simp add: full_decomposition_def fun_eq_iff)
  have ft: "flat_token v' = flat_token v"
    unfolding flat_token_def p fd by (rule refl)
  have ex: "expand v' = expand v"
    unfolding expand_def fd by (rule refl)
  have ea: "expand_all v' = expand_all v"
    unfolding expand_all_def ex by (rule refl)
  have "consistent_merge v' = consistent_merge v"
    unfolding consistent_merge_def ft fd ea by (rule refl)
  then show ?thesis
    unfolding learned_merge_def by simp
qed

text \<open>A wrapper returned by \<open>bpe\<close> from a vocabulary ready for learning: the flag is
  set, the vocabulary is well-formed, and every entry of the merge table is the
  succession of two tokens whose expansions make up the merged token's decomposition.\<close>

lemma bpe_learned:
  assumes "learner_ready (vocab self)" and "bpe self samples vocab_size = Inr (self', samples')"
  shows "has_bpe self'" and "wf_vocab (vocab self')"
    and "list_all (learned_merge (vocab self')) (bpe_successions self')"
proof -
  from bpe_result [OF assms(2)] obtain self1 self2 where
    l: "bpe_loop self samples vocab_size = Inr (self1, samples')" and
    s: "set_bpe_tokens_successions (self1\<lparr>has_bpe := True\<rparr>) = Inr self2" and
    e: "self' = (add_bpe_to_tokens_type_graph self2)
       \<lparr>vocab := update_token_types_indexes (vocab (add_bpe_to_tokens_type_graph self2))\<rparr>"
    by blast
  from l have ready: "learner_ready (vocab self1)"
    using bpe_iterations_ready [OF assms(1)] by (simp add: bpe_loop_iterations)
  from s obtain d where
    d: "successions_of (vocab self1) (tokens_of_type (vocab self1) ''BPE'') [] = Inr d" and
    s2: "self2 = self1\<lparr>has_bpe := True, bpe_successions := d\<rparr>"
    by (auto simp: set_bpe_tokens_successions_def split: sum.splits)
  have ld: "list_all (learned_merge (vocab self1)) d"
    using successions_of_learned [OF d] ready by (simp add: learner_ready_def)
  have t: "token_to_event (vocab self') = token_to_event (vocab self1)"
    and b: "bpe_successions self' = d" and h: "has_bpe self'"
    by (simp_all add: e s2 add_bpe_to_tokens_type_graph_def Let_def update_token_types_indexes_def)
  show "has_bpe self'" by (rule h)
  show "wf_vocab (vocab self')"
    using ready wf_vocab_cong [OF t] by (simp add: learner_ready_def)
  show "list_all (learned_merge (vocab self')) (bpe_successions self')"
    using ld learned_merge_cong [OF t] b by simp
qed

lemma learned_consistent:
  "list_all (learned_merge (vocab self)) (bpe_successions self) \<Longrightarrow> consistent_merges self"
  by (simp add: consistent_merges_def learned_merge_def list_all_iff)

lemma learned_pairs:
  "list_all (learned_merge v) items \<Longrightarrow>
   list_all (\<lambda>(tok, token_succession). 2 \<le> length token_succession) items"
  by (induction items) (auto simp: learned_merge_def)

text \<open>
  C1, as stated: for any sequence \<open>s\<close> of tokens of the vocabulary, \<open>decompose_bpe\<close> of
  \<open>apply_bpe\<close> of \<open>s\<close> is \<open>s\<close>. Merged tokens are tokens of the vocabulary, and a
  sequence that holds one already does not come back: \<open>[4, 0, 1, 2]\<close> is compressed to
  \<open>[4, 4, 2]\<close> and decomposed to \<open>[0, 1, 0, 1, 2]\<close>.
\<close>

theorem round_trip_counterexample:
  "set [4, 0, 1, 2] \<subseteq> set (dict_keys (token_to_event (vocab scenario_learned))) \<and>
   apply_bpe scenario_learned [4, 0, 1, 2] = Inr [4, 4, 2] \<and>
   decompose_bpe scenario_learned [4, 4, 2] = Some (Inr [0, 1, 0, 1, 2]) \<and>
   [0, 1, 0, 1, 2] \<noteq> [4, 0, 1, 2 :: token]"
  by code_simp

text \<open>
  C1, amended: with a merge table consistent with the vocabulary (as \<open>bpe\<close> builds it,
  lemmas \<open>bpe_learned\<close> and \<open>learned_consistent\<close>), for every sequence \<open>s\<close> of flat tokens
  of the vocabulary \<open>apply_bpe\<close> returns some \<open>s'\<close> and \<open>decompose_bpe\<close> of \<open>s'\<close> is the
  expansion of \<open>s\<close>; when \<open>s\<close> consists of primitive tokens, that is \<open>s\<close> itself.
\<close>

theorem round_trip:
  assumes "consistent_merges self" and "list_all (flat_token (vocab self)) s"
  shows "\<exists>s'. apply_bpe self s = Inr s' \<and>
           decompose_bpe self s' = Some (Inr (expand_all (vocab self) s)) \<and>
           (list_all (primitive_token (vocab self)) s \<longrightarrow> decompose_bpe self s' = Some (Inr s))"
proof -
  let ?v = "vocab self"
  have cm: "list_all (consistent_merge ?v) (bpe_successions self)"
    using assms(1) by (simp add: consistent_merges_def)
  have "\<exists>s'. apply_bpe self s = Inr s' \<and> expand_all ?v s' = expand_all ?v s \<and>
          list_all (flat_token ?v) s'"
  proof (cases "has_bpe self")
    case False
    with assms(2) show ?thesis by (simp add: apply_bpe_def)
  next
    case True
    from apply_loop_ok [OF consistent_merges_not_empty [OF cm]] obtain s' where
      a: "apply_loop (bpe_successions self) (length s + 1) s = Inr s'" by blast
    from apply_loop_expand [OF a cm] have e: "expand_all ?v s' = expand_all ?v s"
      and sub: "set s' \<subseteq> fst ` set (bpe_successions self) \<union> set s" by simp_all
    have "\<forall>tok\<in>fst ` set (bpe_successions self). flat_token ?v tok"
      using cm by (auto simp: list_all_iff consistent_merge_def)
    with sub assms(2) have "list_all (flat_token ?v) s'"
      by (auto simp: list_all_iff)
    with a e True show ?thesis by (simp add: apply_bpe_def)
  qed
  then obtain s' where a: "apply_bpe self s = Inr s'"
    and e: "expand_all ?v s' = expand_all ?v s" and f: "list_all (flat_token ?v) s'"
    by blast
  from f have "list_all (flat_token ?v) (drop 0 s')" by simp
  from decompose_loop_flat [OF this] e
  have d: "decompose_bpe self s' = Some (Inr (expand_all ?v s))"
    by (simp add: decompose_bpe_def)
  with a show ?thesis
    by (auto simp: expand_all_primitive)
qed

theorem round_trip_witness:
  "apply_bpe scenario_learned [0, 1, 0, 1, 2] = Inr [4, 4, 2] \<and>
   decompose_bpe scenario_learned [4, 4, 2] = Some (Inr [0, 1, 0, 1, 2])"
proof -
  have "learner_ready (vocab scenario_bpe)"
    by code_simp
  from bpe_learned(3) [OF this scenario_bpe_learns]
  have cm: "consistent_merges scenario_learned"
    by (rule learned_consistent)
  have p: "list_all (primitive_token (vocab scenario_learned)) [0, 1, 0, 1, 2]"
    by code_simp
  then have f: "list_all (flat_token (vocab scenario_learned)) [0, 1, 0, 1, 2]"
    by (auto simp: list_all_iff primitive_flat)
  have a: "apply_bpe scenario_learned [0, 1, 0, 1, 2] = Inr [4, 4, 2]"
    by code_simp
  from round_trip [OF cm f] p a show ?thesis
    by auto
qed

subsection \<open>What the caller's lists look like afterwards\<close>

text \<open>
  \<open>apply_bpe\<close> and \<open>decompose_bpe\<close> rewrite the list they are given in place
  (\<open>tokens[i] = tok\<close>, \<open>del tokens[i + 1]\<close>, \<open>tokens.insert\<close>) and return that same
  list object. To see what a caller can observe, list objects live in a heap, from
  addresses to contents; a variable holding a list holds its address, and the dict
  \<open>bpe_successions\<close> holds the addresses of its succession lists. Strings and integers
  are immutable and stay values. The methods assign no attribute of \<open>self\<close> and call
  nothing that writes the vocabulary or the dict \<open>bpe_successions\<close>, so the object and
  the dict of addresses are arguments that are only read; every write is a write to
  the heap.
\<close>

type_synonym addr = nat
type_synonym heap = "addr \<Rightarrow> token list"

text \<open>\<^verbatim>\<open>for _ in range(n): del tokens[i + 1]\<close>\<close>

fun del_next_at :: "nat \<Rightarrow> heap \<Rightarrow> addr \<Rightarrow> nat \<Rightarrow> heap \<times> py_error option" where
  "del_next_at 0 h tokens i = (h, None)"
| "del_next_at (Suc n) h tokens i =
     (case list_del (h tokens) (i + 1) of
        Inl e \<Rightarrow> (h, Some e)
      | Inr ts \<Rightarrow> del_next_at n (h(tokens := ts)) tokens i)"

lemma del_next_at_frame:
  "del_next_at n h tokens i = (h', err) \<Longrightarrow>
   length (h' tokens) \<le> length (h tokens) \<and> (\<forall>a. a \<noteq> tokens \<longrightarrow> h' a = h a)"
proof (induction n arbitrary: h)
  case 0
  then show ?case by simp
next
  case (Suc n)
  show ?case
  proof (cases "list_del (h tokens) (i + 1)")
    case (Inl e)
    with Suc.prems show ?thesis by simp
  next
    case (Inr ts)
    with Suc.prems have "del_next_at n (h(tokens := ts)) tokens i = (h', err)" by simp
    from Suc.IH [OF this] Inr show ?thesis
      by (auto simp: list_del_def split: if_splits)
  qed
qed

text \<open>
  The scan for one merge. \<open>len(token_succession)\<close> in \<open>range\<close> is read after
  \<open>tokens[i] = tok\<close>: the two lists may be the same object.
\<close>

function apply_succession_at :: "token \<Rightarrow> addr \<Rightarrow> heap \<Rightarrow> addr \<Rightarrow> nat \<Rightarrow> heap \<times> py_error option" where
  "apply_succession_at tok token_succession h tokens i =
     (if int i \<le> int (length (h tokens)) - int (length (h token_succession)) then
        (if slice (h tokens) i (i + length (h token_succession)) = h token_succession then
           (case list_set (h tokens) i tok of
              Inl e \<Rightarrow> (h, Some e)
            | Inr ts \<Rightarrow>
                (case del_next_at (length ((h(tokens := ts)) token_succession) - 1)
                        (h(tokens := ts)) tokens i of
                   (h', err) \<Rightarrow>
                     (case err of
                        Some e \<Rightarrow> (h', Some e)
                      | None \<Rightarrow> apply_succession_at tok token_succession h' tokens (i + 1))))
         else apply_succession_at tok token_succession h tokens (i + 1))
      else (h, None))"
  by pat_completeness auto
termination
proof (relation "measure (\<lambda>(tok, token_succession, h, tokens, i). length (h tokens) + 1 - i)",
    goal_cases)
  case 1
  show ?case by simp
next
  case (2 tok token_succession h tokens i ts h' err)
  have "length (h' tokens) \<le> length ((h(tokens := ts)) tokens)"
    using del_next_at_frame [OF 2(4) [symmetric]] by (rule conjunct1)
  moreover have "length ((h(tokens := ts)) tokens) = length (h tokens)"
    using list_set_length [OF 2(3)] by simp
  ultimately have "length (h' tokens) \<le> length (h tokens)"
    by (rule ord_le_eq_trans)
  moreover have "i \<le> length (h tokens)" using 2(1) by linarith
  ultimately show ?case by simp
next
  case (3 tok token_succession h tokens i)
  then have "i \<le> length (h tokens)" by linarith
  then show ?case by simp
qed

declare apply_succession_at.simps [simp del]


fun apply_round_at :: "(token, addr) dict \<Rightarrow> heap \<Rightarrow> addr \<Rightarrow> heap \<times> py_error option" where
  "apply_round_at [] h tokens = (h, None)"
| "apply_round_at ((tok, token_succession) # items) h tokens =
     (case apply_succession_at tok token_succession h tokens 0 of
        (h', err) \<Rightarrow>
          (case err of
             Some e \<Rightarrow> (h', Some e)
           | None \<Rightarrow> apply_round_at items h' tokens))"

lemma apply_succession_at_frame:
  "apply_succession_at tok token_succession h tokens i = (h', err) \<Longrightarrow>
   length (h' tokens) \<le> length (h tokens) \<and> (\<forall>a. a \<noteq> tokens \<longrightarrow> h' a = h a)"
proof (induction tok token_succession h tokens i rule: apply_succession_at.induct)
  case (1 tok token_succession h tokens i)
  show ?case
  proof (cases "int i \<le> int (length (h tokens)) - int (length (h token_succession))")
    case False
    with "1.prems" show ?thesis by (simp add: apply_succession_at.simps)
  next
    case le: True
    show ?thesis
    proof (cases "slice (h tokens) i (i + length (h token_succession)) = h token_succession")
      case False
      with le "1.prems" "1.IH"(2) show ?thesis
        by (simp add: apply_succession_at.simps [of tok token_succession h tokens i])
    next
      case m: True
      show ?thesis
      proof (cases "list_set (h tokens) i tok")
        case (Inl e)
        with le m "1.prems" show ?thesis
          by (simp add: apply_succession_at.simps [of tok token_succession h tokens i])
      next
        case (Inr ts)
        let ?h1 = "h(tokens := ts)"
        obtain h2 err2 where
          d: "del_next_at (length (?h1 token_succession) - 1) ?h1 tokens i = (h2, err2)"
          by (cases "del_next_at (length (?h1 token_succession) - 1) ?h1 tokens i")
        from del_next_at_frame [OF d] have f2: "length (h2 tokens) \<le> length (?h1 tokens)"
          and g2: "\<forall>a. a \<noteq> tokens \<longrightarrow> h2 a = ?h1 a" by simp_all
        have l1: "length (?h1 tokens) = length (h tokens)"
          using list_set_length [OF Inr] by simp
        show ?thesis
        proof (cases err2)
          case (Some e)
          with le m Inr d "1.prems" have "h' = h2"
            by (simp add: apply_succession_at.simps [of tok token_succession h tokens i])
          with f2 g2 l1 show ?thesis by simp
        next
          case None
          with le m Inr d "1.prems" have
            r: "apply_succession_at tok token_succession h2 tokens (i + 1) = (h', err)"
            by (simp add: apply_succession_at.simps [of tok token_succession h tokens i])
          from "1.IH"(1) [OF le m Inr d [symmetric] None r] f2 g2 l1
          show ?thesis by simp
        qed
      qed
    qed
  qed
qed

lemma apply_round_at_frame:
  "apply_round_at items h tokens = (h', err) \<Longrightarrow>
   length (h' tokens) \<le> length (h tokens) \<and> (\<forall>a. a \<noteq> tokens \<longrightarrow> h' a = h a)"
proof (induction items arbitrary: h)
  case Nil
  then show ?case by simp
next
  case (Cons item items)
  obtain tok token_succession where item: "item = (tok, token_succession)"
    by (cases item)
  obtain h1 err1 where a: "apply_succession_at tok token_succession h tokens 0 = (h1, err1)"
    by (cases "apply_succession_at tok token_succession h tokens 0")
  note f = apply_succession_at_frame [OF a]
  show ?case
  proof (cases err1)
    case (Some e)
    with Cons.prems a f show ?thesis by (simp add: item)
  next
    case None
    with Cons.prems a have "apply_round_at items h1 tokens = (h', err)" by (simp add: item)
    from Cons.IH [OF this] f show ?thesis by simp
  qed
qed

function apply_loop_at :: "(token, addr) dict \<Rightarrow> nat \<Rightarrow> heap \<Rightarrow> addr \<Rightarrow> heap \<times> py_error option" where
  "apply_loop_at successions previous_len h tokens =
     (if previous_len \<noteq> length (h tokens) then
        (case apply_round_at successions h tokens of
           (h', err) \<Rightarrow>
             (case err of
                Some e \<Rightarrow> (h', Some e)
              | None \<Rightarrow> apply_loop_at successions (length (h tokens)) h' tokens))
      else (h, None))"
  by pat_completeness auto
termination
proof (relation "measure (\<lambda>(successions, previous_len, h, tokens).
    length (h tokens) + (if previous_len \<noteq> length (h tokens) then 1 else 0))", goal_cases)
  case 1
  show ?case by simp
next
  case (2 successions previous_len h tokens h' err)
  from apply_round_at_frame [OF 2(2) [symmetric]] 2(1) show ?case by auto
qed

declare apply_loop_at.simps [simp del]


text \<open>\<open>apply_bpe\<close> on the heap: it returns the address it was given.\<close>

definition apply_bpe_at :: "BPE \<Rightarrow> (token, addr) dict \<Rightarrow> heap \<Rightarrow> addr \<Rightarrow> heap \<times> (py_error + addr)" where
  "apply_bpe_at self successions h tokens =
     (if \<not> has_bpe self then (h, Inr tokens)
      else
        (case apply_loop_at successions (length (h tokens) + 1) h tokens of
           (h', err) \<Rightarrow> (h', case err of Some e \<Rightarrow> Inl e | None \<Rightarrow> Inr tokens)))"

text \<open>
  \<^verbatim>\<open>for j, to_insert in enumerate(map(int, pieces)): tokens.insert(i + j, to_insert)\<close>:
  \<open>map\<close> is lazy, so a piece that does not parse raises after the pieces before it have
  been inserted.
\<close>

fun insert_parsed :: "heap \<Rightarrow> addr \<Rightarrow> nat \<Rightarrow> string list \<Rightarrow> heap \<times> py_error option" where
  "insert_parsed h tokens k [] = (h, None)"
| "insert_parsed h tokens k (piece # pieces) =
     (case int_of_str piece of
        Inl e \<Rightarrow> (h, Some e)
      | Inr to_insert \<Rightarrow>
          insert_parsed (h(tokens := list_insert (h tokens) k to_insert)) tokens (k + 1) pieces)"

partial_function (option) decompose_loop_at :: "Vocabulary \<Rightarrow> heap \<Rightarrow> addr \<Rightarrow> nat \<Rightarrow> (heap \<times> py_error option) option" where
  "decompose_loop_at v h tokens i =
     (if i < length (h tokens) then
        (case vocab_getitem_int v (h tokens ! i) of
           Inl e \<Rightarrow> Some (h, Some e)
         | Inr event \<Rightarrow>
             (case unpack2 (split (CHR ''_'') event) of
                Inl e \<Rightarrow> Some (h, Some e)
              | Inr (token_type, token_val) \<Rightarrow>
                  if token_type = ''BPE'' then
                    (case list_del (h tokens) i of
                       Inl e \<Rightarrow> Some (h, Some e)
                     | Inr ts \<Rightarrow>
                         (case list_get (split (CHR ''.'') token_val) 1 of
                            Inl e \<Rightarrow> Some (h(tokens := ts), Some e)
                          | Inr s \<Rightarrow>
                              (case insert_parsed (h(tokens := ts)) tokens i (split (CHR ''-'') s) of
                                 (h', err) \<Rightarrow>
                                   (case err of
                                      Some e \<Rightarrow> Some (h', Some e)
                                    | None \<Rightarrow> decompose_loop_at v h' tokens (i + 1)))))
                  else decompose_loop_at v h tokens (i + 1)))
      else Some (h, None))"

declare decompose_loop_at.simps [code]

definition decompose_bpe_at :: "BPE \<Rightarrow> heap \<Rightarrow> addr \<Rightarrow> (heap \<times> (py_error + addr)) option" where
  "decompose_bpe_at self h tokens =
     (case decompose_loop_at (vocab self) h tokens 0 of
        None \<Rightarrow> None
      | Some (h', err) \<Rightarrow> Some (h', case err of Some e \<Rightarrow> Inl e | None \<Rightarrow> Inr tokens))"

text \<open>The merge table as a value: every address replaced by the contents of its list.\<close>

definition table_view :: "heap \<Rightarrow> (token, addr) dict \<Rightarrow> (token, token list) dict" where
  "table_view h successions = map (\<lambda>(tok, token_succession). (tok, h token_succession)) successions"

lemma apply_loop_at_frame:
  "apply_loop_at successions previous_len h tokens = (h', err) \<Longrightarrow>
   (\<forall>a. a \<noteq> tokens \<longrightarrow> h' a = h a)"
proof (induction successions previous_len h tokens rule: apply_loop_at.induct)
  case (1 successions previous_len h tokens)
  show ?case
  proof (cases "previous_len = length (h tokens)")
    case True
    with "1.prems" show ?thesis by (simp add: apply_loop_at.simps)
  next
    case False
    obtain h1 err1 where r: "apply_round_at successions h tokens = (h1, err1)"
      by (cases "apply_round_at successions h tokens")
    note f = apply_round_at_frame [OF r]
    show ?thesis
    proof (cases err1)
      case (Some e)
      with False r "1.prems" f show ?thesis
        by (simp add: apply_loop_at.simps [of successions previous_len h tokens])
    next
      case None
      with False r "1.prems" have
        l: "apply_loop_at successions (length (h tokens)) h1 tokens = (h', err)"
        by (simp add: apply_loop_at.simps [of successions previous_len h tokens])
      from "1.IH" [OF False r [symmetric] None l] f show ?thesis by simp
    qed
  qed
qed

lemma insert_parsed_frame:
  "insert_parsed h tokens k pieces = (h', err) \<Longrightarrow> (\<forall>a. a \<noteq> tokens \<longrightarrow> h' a = h a)"
proof (induction pieces arbitrary: h k)
  case Nil
  then show ?case by simp
next
  case (Cons piece pieces)
  show ?case
  proof (cases "int_of_str piece")
    case (Inl e)
    with Cons.prems show ?thesis by simp
  next
    case (Inr x)
    with Cons.prems have
      "insert_parsed (h(tokens := list_insert (h tokens) k x)) tokens (k + 1) pieces = (h', err)"
      by simp
    from Cons.IH [OF this] show ?thesis by simp
  qed
qed

lemma decompose_loop_at_frame:
  assumes "decompose_loop_at v h tokens i = Some y"
  shows "\<forall>a. a \<noteq> tokens \<longrightarrow> fst y a = h a"
proof (rule decompose_loop_at.raw_induct
    [where P = "\<lambda>v h tokens i y. \<forall>a. a \<noteq> tokens \<longrightarrow> fst y a = h a", OF _ assms], goal_cases)
  case (1 f v h tokens i y)
  show ?case
  proof (cases "i < length (h tokens)")
    case False
    with 1(2) show ?thesis by auto
  next
    case lt: True
    show ?thesis
    proof (cases "vocab_getitem_int v (h tokens ! i)")
      case (Inl e)
      with lt 1(2) show ?thesis by auto
    next
      case ev: (Inr event)
      show ?thesis
      proof (cases "unpack2 (split (CHR ''_'') event)")
        case (Inl e)
        with lt ev 1(2) show ?thesis by auto
      next
        case (Inr p)
        obtain token_type token_val where p: "p = (token_type, token_val)" by (cases p)
        show ?thesis
        proof (cases "token_type = ''BPE''")
          case False
          with lt ev Inr p 1(2) have "f v h tokens (i + 1) = Some y" by simp
          from 1(1) [OF this] show ?thesis .
        next
          case bpe: True
          show ?thesis
          proof (cases "list_del (h tokens) i")
            case (Inl e)
            with lt ev Inr p bpe 1(2) show ?thesis by auto
          next
            case del: (Inr ts)
            show ?thesis
            proof (cases "list_get (split (CHR ''.'') token_val) 1")
              case (Inl e)
              with lt ev Inr p bpe del 1(2) show ?thesis by auto
            next
              case s: (Inr s)
              obtain h1 err1 where
                ip: "insert_parsed (h(tokens := ts)) tokens i (split (CHR ''-'') s) = (h1, err1)"
                by (cases "insert_parsed (h(tokens := ts)) tokens i (split (CHR ''-'') s)")
              from insert_parsed_frame [OF ip] have f1: "\<forall>a. a \<noteq> tokens \<longrightarrow> h1 a = h a"
                by simp
              show ?thesis
              proof (cases err1)
                case (Some e)
                with lt ev Inr p bpe del s ip 1(2) have "y = (h1, Some e)" by simp
                with f1 show ?thesis by simp
              next
                case None
                with lt ev Inr p bpe del s ip 1(2) have "f v h1 tokens (i + 1) = Some y"
                  by simp
                from 1(1) [OF this] f1 show ?thesis by simp
              qed
            qed
          qed
        qed
      qed
    qed
  qed
qed

text \<open>
  The heap functions and the functions on values agree: when the list given is not one
  of the table's succession lists, the heap function writes the result of the value
  function at the address of the list and touches nothing else; an exception of the
  one is the same exception of the other.
\<close>

definition agrees :: "heap \<times> py_error option \<Rightarrow> heap \<Rightarrow> addr \<Rightarrow> py_error + token list \<Rightarrow> bool" where
  "agrees r h tokens val =
     (case val of Inl e \<Rightarrow> snd r = Some e | Inr ts \<Rightarrow> r = (h(tokens := ts), None))"

lemma agrees_same: "h tokens = ts \<Longrightarrow> agrees (h, None) h tokens (Inr ts)"
  by (auto simp: agrees_def)

lemma agrees_error: "agrees (h', Some e) h tokens (Inl e)"
  by (simp add: agrees_def)

lemma agrees_update:
  "agrees r (h(tokens := ts)) tokens val \<Longrightarrow> agrees r h tokens val"
  by (auto simp: agrees_def split: sum.splits)

lemma agrees_Inl: "agrees r h tokens (Inl e) \<Longrightarrow> snd r = Some e"
  by (simp add: agrees_def)

lemma agrees_Inr: "agrees r h tokens (Inr ts) \<Longrightarrow> r = (h(tokens := ts), None)"
  by (simp add: agrees_def)

lemma del_next_at_agrees:
  "agrees (del_next_at n h tokens i) h tokens (del_next n (h tokens) i)"
proof (induction n arbitrary: h)
  case 0
  show ?case by (simp add: agrees_same)
next
  case (Suc n)
  show ?case
  proof (cases "list_del (h tokens) (i + 1)")
    case (Inl e)
    then show ?thesis by (simp add: agrees_error)
  next
    case (Inr ts)
    have e: "(h(tokens := ts)) tokens = ts" by simp
    have "agrees (del_next_at n (h(tokens := ts)) tokens i) (h(tokens := ts)) tokens (del_next n ts i)"
      using Suc.IH [of "h(tokens := ts)"] unfolding e .
    then have "agrees (del_next_at n (h(tokens := ts)) tokens i) h tokens (del_next n ts i)"
      by (rule agrees_update)
    with Inr show ?thesis by simp
  qed
qed

lemma apply_succession_at_agrees:
  "h tokens = tks \<Longrightarrow> h token_succession = sks \<Longrightarrow> token_succession \<noteq> tokens \<Longrightarrow>
   agrees (apply_succession_at tok token_succession h tokens i) h tokens
     (apply_succession tok sks tks i)"
proof (induction tok sks tks i arbitrary: h rule: apply_succession.induct)
  case (1 tok sks tks i)
  note ht = "1.prems"(1) and hs = "1.prems"(2) and ne = "1.prems"(3)
  note v = apply_succession.simps [of tok sks tks i]
  note a = apply_succession_at.simps [of tok token_succession h tokens i]
  show ?case
  proof (cases "int i \<le> int (length tks) - int (length sks)")
    case False
    then have "apply_succession tok sks tks i = Inr tks"
      and "apply_succession_at tok token_succession h tokens i = (h, None)"
      by (simp_all add: v a ht hs)
    with agrees_same [of h tokens tks, OF ht] show ?thesis by simp
  next
    case le: True
    show ?thesis
    proof (cases "slice tks i (i + length sks) = sks")
      case False
      with le have "apply_succession tok sks tks i = apply_succession tok sks tks (i + 1)"
        and "apply_succession_at tok token_succession h tokens i =
             apply_succession_at tok token_succession h tokens (i + 1)"
        by (simp_all add: v a ht hs)
      with "1.IH"(2) [OF le False ht hs ne] show ?thesis by simp
    next
      case m: True
      show ?thesis
      proof (cases "list_set tks i tok")
        case (Inl e)
        with le m have "apply_succession tok sks tks i = Inl e"
          and "apply_succession_at tok token_succession h tokens i = (h, Some e)"
          by (simp_all add: v a ht hs)
        with agrees_error show ?thesis by simp
      next
        case s: (Inr tks1)
        let ?h1 = "h(tokens := tks1)"
        have hs1: "?h1 token_succession = sks" using hs ne by simp
        have e1: "?h1 tokens = tks1" by simp
        have da: "agrees (del_next_at (length sks - 1) ?h1 tokens i) ?h1 tokens
                   (del_next (length sks - 1) tks1 i)"
          using del_next_at_agrees [of "length sks - 1" ?h1 tokens i] unfolding e1 .
        obtain h2 err2 where d2: "del_next_at (length sks - 1) ?h1 tokens i = (h2, err2)"
          by (cases "del_next_at (length sks - 1) ?h1 tokens i")
        show ?thesis
        proof (cases "del_next (length sks - 1) tks1 i")
          case (Inl e)
          with da d2 have "err2 = Some e" by (auto dest: agrees_Inl)
          with le m s Inl d2 have "apply_succession tok sks tks i = Inl e"
            and "apply_succession_at tok token_succession h tokens i = (h2, Some e)"
            by (simp_all add: v a ht hs hs1 ne)
          with agrees_error show ?thesis by simp
        next
          case d: (Inr tks2)
          let ?h2 = "h(tokens := tks2)"
          from da d d2 have h2: "h2 = ?h2" and err2: "err2 = None"
            by (auto dest: agrees_Inr)
          have e2: "?h2 tokens = tks2" by simp
          have hs2: "?h2 token_succession = sks" using hs ne by simp
          have "agrees (apply_succession_at tok token_succession ?h2 tokens (i + 1)) ?h2 tokens
                  (apply_succession tok sks tks2 (i + 1))"
            using "1.IH"(1) [OF le m s d e2 hs2 ne] .
          then have "agrees (apply_succession_at tok token_succession ?h2 tokens (i + 1)) h tokens
                  (apply_succession tok sks tks2 (i + 1))"
            by (rule agrees_update)
          moreover from le m s d d2 h2 err2
          have "apply_succession tok sks tks i = apply_succession tok sks tks2 (i + 1)"
            and "apply_succession_at tok token_succession h tokens i =
                 apply_succession_at tok token_succession ?h2 tokens (i + 1)"
            by (simp_all add: v a ht hs hs1 ne)
          ultimately show ?thesis by simp
        qed
      qed
    qed
  qed
qed

lemma table_view_update:
  "tokens \<notin> snd ` set successions \<Longrightarrow> table_view (h(tokens := ts)) successions = table_view h successions"
  by (induction successions) (auto simp: table_view_def)

lemma apply_round_at_agrees:
  "tokens \<notin> snd ` set successions \<Longrightarrow>
   agrees (apply_round_at successions h tokens) h tokens
     (apply_round (table_view h successions) (h tokens))"
proof (induction successions arbitrary: h)
  case Nil
  show ?case by (simp add: agrees_same table_view_def)
next
  case (Cons item items)
  obtain tok token_succession where item: "item = (tok, token_succession)"
    by (cases item)
  from Cons.prems have ne: "token_succession \<noteq> tokens" and rest: "tokens \<notin> snd ` set items"
    by (auto simp: item)
  have a: "agrees (apply_succession_at tok token_succession h tokens 0) h tokens
             (apply_succession tok (h token_succession) (h tokens) 0)"
    using apply_succession_at_agrees [OF refl refl ne] .
  have tv: "table_view h ((tok, token_succession) # items) =
      (tok, h token_succession) # table_view h items"
    by (simp add: table_view_def)
  obtain h1 err1 where sa: "apply_succession_at tok token_succession h tokens 0 = (h1, err1)"
    by (cases "apply_succession_at tok token_succession h tokens 0")
  show ?case
  proof (cases "apply_succession tok (h token_succession) (h tokens) 0")
    case (Inl e)
    with a sa have "err1 = Some e" by (auto dest: agrees_Inl)
    with sa Inl have "apply_round_at (item # items) h tokens = (h1, Some e)"
      and "apply_round (table_view h (item # items)) (h tokens) = Inl e"
      by (simp_all add: tv item)
    with agrees_error show ?thesis by simp
  next
    case (Inr tks1)
    let ?h1 = "h(tokens := tks1)"
    from a Inr sa have h1: "h1 = ?h1" and err1: "err1 = None"
      by (auto dest: agrees_Inr)
    have e1: "?h1 tokens = tks1" by simp
    have "agrees (apply_round_at items ?h1 tokens) ?h1 tokens
            (apply_round (table_view h items) tks1)"
      using Cons.IH [OF rest, of ?h1] unfolding e1 table_view_update [OF rest] .
    then have "agrees (apply_round_at items ?h1 tokens) h tokens
            (apply_round (table_view h items) tks1)"
      by (rule agrees_update)
    moreover from sa h1 err1 Inr
    have "apply_round_at (item # items) h tokens = apply_round_at items ?h1 tokens"
      and "apply_round (table_view h (item # items)) (h tokens) =
           apply_round (table_view h items) tks1"
      by (simp_all add: tv item)
    ultimately show ?thesis by simp
  qed
qed

lemma apply_loop_at_stop: "apply_loop_at refs (length (h tokens)) h tokens = (h, None)"
  by (simp add: apply_loop_at.simps)

lemma apply_loop_at_agrees:
  "h tokens = tks \<Longrightarrow> table_view h refs = successions \<Longrightarrow> tokens \<notin> snd ` set refs \<Longrightarrow>
   agrees (apply_loop_at refs previous_len h tokens) h tokens
     (apply_loop successions previous_len tks)"
proof (induction successions previous_len tks arbitrary: h rule: apply_loop.induct)
  case (1 successions previous_len tks)
  note ht = "1.prems"(1) and tv = "1.prems"(2) and ne = "1.prems"(3)
  note v = apply_loop.simps [of successions previous_len tks]
  note a = apply_loop_at.simps [of refs previous_len h tokens]
  show ?case
  proof (cases "previous_len = length tks")
    case True
    from True ht have pl: "previous_len = length (h tokens)" by simp
    have "apply_loop_at refs previous_len h tokens = (h, None)"
      unfolding pl by (rule apply_loop_at_stop)
    moreover have "apply_loop successions previous_len tks = Inr tks"
      unfolding True by (rule apply_loop_stop)
    ultimately have "apply_loop successions previous_len tks = Inr tks"
      and "apply_loop_at refs previous_len h tokens = (h, None)" by simp_all
    with agrees_same [of h tokens tks, OF ht] show ?thesis by simp
  next
    case False
    have ra: "agrees (apply_round_at refs h tokens) h tokens (apply_round successions tks)"
      using apply_round_at_agrees [OF ne, of h] unfolding ht tv .
    obtain h1 err1 where r1: "apply_round_at refs h tokens = (h1, err1)"
      by (cases "apply_round_at refs h tokens")
    show ?thesis
    proof (cases "apply_round successions tks")
      case (Inl e)
      with ra r1 have "err1 = Some e" by (auto dest: agrees_Inl)
      with False r1 Inl have "apply_loop successions previous_len tks = Inl e"
        and "apply_loop_at refs previous_len h tokens = (h1, Some e)"
        by (simp_all add: v a ht)
      with agrees_error show ?thesis by simp
    next
      case (Inr tks1)
      let ?h1 = "h(tokens := tks1)"
      from ra Inr r1 have h1: "h1 = ?h1" and err1: "err1 = None"
        by (auto dest: agrees_Inr)
      have e1: "?h1 tokens = tks1" by simp
      have tv1: "table_view ?h1 refs = successions"
        using tv table_view_update [OF ne] by simp
      have "agrees (apply_loop_at refs (length tks) ?h1 tokens) ?h1 tokens
              (apply_loop successions (length tks) tks1)"
        using "1.IH" [OF False Inr e1 tv1 ne] .
      then have "agrees (apply_loop_at refs (length tks) ?h1 tokens) h tokens
              (apply_loop successions (length tks) tks1)"
        by (rule agrees_update)
      moreover from False Inr r1 h1 err1
      have "apply_loop successions previous_len tks = apply_loop successions (length tks) tks1"
        and "apply_loop_at refs previous_len h tokens = apply_loop_at refs (length tks) ?h1 tokens"
        by (simp_all add: v a ht)
      ultimately show ?thesis by simp
    qed
  qed
qed


lemma insert_parsed_agrees:
  "agrees (insert_parsed h tokens k pieces) h tokens
     (case map_int pieces of Inl e \<Rightarrow> Inl e | Inr xs \<Rightarrow> Inr (insert_all (h tokens) k xs))"
proof (induction pieces arbitrary: h k)
  case Nil
  show ?case by (simp add: agrees_same)
next
  case (Cons piece pieces)
  show ?case
  proof (cases "int_of_str piece")
    case (Inl e)
    then show ?thesis by (simp add: agrees_error)
  next
    case (Inr x)
    let ?h1 = "h(tokens := list_insert (h tokens) k x)"
    have e1: "?h1 tokens = list_insert (h tokens) k x" by simp
    have "agrees (insert_parsed ?h1 tokens (k + 1) pieces) ?h1 tokens
       (case map_int pieces of Inl e \<Rightarrow> Inl e
        | Inr xs \<Rightarrow> Inr (insert_all (list_insert (h tokens) k x) (k + 1) xs))"
      using Cons.IH [of ?h1 "k + 1"] unfolding e1 .
    then have "agrees (insert_parsed ?h1 tokens (k + 1) pieces) h tokens
       (case map_int pieces of Inl e \<Rightarrow> Inl e
        | Inr xs \<Rightarrow> Inr (insert_all (list_insert (h tokens) k x) (k + 1) xs))"
      by (rule agrees_update)
    with Inr show ?thesis by (simp split: sum.splits)
  qed
qed

lemma decompose_loop_at_agrees:
  assumes "decompose_loop v tks i = Some val"
  shows "\<forall>h. h tokens = tks \<longrightarrow>
           (\<exists>r. decompose_loop_at v h tokens i = Some r \<and> agrees r h tokens val)"
proof (rule decompose_loop.raw_induct
    [where P = "\<lambda>v tks i val. \<forall>h. h tokens = tks \<longrightarrow>
           (\<exists>r. decompose_loop_at v h tokens i = Some r \<and> agrees r h tokens val)", OF _ assms],
    goal_cases)
  case (1 f v tks i val)
  show ?case
  proof (intro allI impI)
    fix h :: heap
    assume ht: "h tokens = tks"
    note a = decompose_loop_at.simps [of v h tokens i]
    show "\<exists>r. decompose_loop_at v h tokens i = Some r \<and> agrees r h tokens val"
    proof (cases "i < length tks")
      case False
      with 1(2) have "val = Inr tks" by simp
      moreover from False have "decompose_loop_at v h tokens i = Some (h, None)"
        by (simp add: a ht)
      ultimately show ?thesis using agrees_same [of h tokens tks, OF ht] by simp
    next
      case lt: True
      show ?thesis
      proof (cases "vocab_getitem_int v (tks ! i)")
        case (Inl e)
        with lt 1(2) have "val = Inl e" by simp
        moreover from lt Inl have "decompose_loop_at v h tokens i = Some (h, Some e)"
          by (simp add: a ht)
        ultimately show ?thesis by (simp add: agrees_error)
      next
        case ev: (Inr event)
        show ?thesis
        proof (cases "unpack2 (split (CHR ''_'') event)")
          case (Inl e)
          with lt ev 1(2) have "val = Inl e" by simp
          moreover from lt ev Inl have "decompose_loop_at v h tokens i = Some (h, Some e)"
            by (simp add: a ht)
          ultimately show ?thesis by (simp add: agrees_error)
        next
          case (Inr p)
          obtain token_type token_val where p: "p = (token_type, token_val)" by (cases p)
          show ?thesis
          proof (cases "token_type = ''BPE''")
            case False
            with lt ev Inr p 1(2) have "f v tks (i + 1) = Some val" by simp
            from 1(1) [OF this, THEN spec [where x = h], THEN mp, OF ht] obtain r where
              "decompose_loop_at v h tokens (i + 1) = Some r" and "agrees r h tokens val"
              by blast
            moreover from lt ev Inr p False
            have "decompose_loop_at v h tokens i = decompose_loop_at v h tokens (i + 1)"
              by (simp add: a ht)
            ultimately show ?thesis by simp
          next
            case bpe: True
            show ?thesis
            proof (cases "list_del tks i")
              case (Inl e)
              with lt ev Inr p bpe 1(2) have "val = Inl e" by simp
              moreover from lt ev Inr p bpe Inl
              have "decompose_loop_at v h tokens i = Some (h, Some e)"
                by (simp add: a ht)
              ultimately show ?thesis by (simp add: agrees_error)
            next
              case del: (Inr ts)
              let ?h1 = "h(tokens := ts)"
              show ?thesis
              proof (cases "list_get (split (CHR ''.'') token_val) 1")
                case (Inl e)
                with lt ev Inr p bpe del 1(2) have "val = Inl e"
                  by (simp add: decomposition_of_val_def)
                moreover from lt ev Inr p bpe del Inl
                have "decompose_loop_at v h tokens i = Some (?h1, Some e)"
                  by (simp add: a ht)
                ultimately show ?thesis by (simp add: agrees_error)
              next
                case s: (Inr s)
                have e1: "?h1 tokens = ts" by simp
                have ia: "agrees (insert_parsed ?h1 tokens i (split (CHR ''-'') s)) ?h1 tokens
                    (case map_int (split (CHR ''-'') s) of Inl e \<Rightarrow> Inl e
                     | Inr xs \<Rightarrow> Inr (insert_all ts i xs))"
                  using insert_parsed_agrees [of ?h1 tokens i "split (CHR ''-'') s"]
                  unfolding e1 .
                obtain h2 err2 where
                  ip: "insert_parsed ?h1 tokens i (split (CHR ''-'') s) = (h2, err2)"
                  by (cases "insert_parsed ?h1 tokens i (split (CHR ''-'') s)")
                show ?thesis
                proof (cases "map_int (split (CHR ''-'') s)")
                  case (Inl e)
                  with lt ev Inr p bpe del s 1(2) have "val = Inl e"
                    by (simp add: decomposition_of_val_def)
                  moreover from ia Inl ip have "err2 = Some e" by (auto dest: agrees_Inl)
                  with lt ev Inr p bpe del s ip
                  have "decompose_loop_at v h tokens i = Some (h2, Some e)"
                    by (simp add: a ht)
                  ultimately show ?thesis by (simp add: agrees_error)
                next
                  case xs: (Inr xs)
                  let ?h2 = "h(tokens := insert_all ts i xs)"
                  from ia xs ip have h2: "h2 = ?h2" and err2: "err2 = None"
                    by (auto dest: agrees_Inr)
                  from lt ev Inr p bpe del s xs 1(2)
                  have fv: "f v (insert_all ts i xs) (i + 1) = Some val"
                    by (simp add: decomposition_of_val_def)
                  have e2: "?h2 tokens = insert_all ts i xs" by simp
                  from 1(1) [OF fv, THEN spec [where x = "?h2"], THEN mp, OF e2] obtain r where
                    r: "decompose_loop_at v ?h2 tokens (i + 1) = Some r" and
                    ar: "agrees r ?h2 tokens val"
                    by blast
                  from ar have "agrees r h tokens val" by (rule agrees_update)
                  moreover from lt ev Inr p bpe del s ip h2 err2 r
                  have "decompose_loop_at v h tokens i = Some r"
                    by (simp add: a ht)
                  ultimately show ?thesis by simp
                qed
              qed
            qed
          qed
        qed
      qed
    qed
  qed
qed

lemma table_view_frame:
  "\<forall>a. a \<noteq> tokens \<longrightarrow> h' a = h a \<Longrightarrow> tokens \<notin> snd ` set successions \<Longrightarrow>
   table_view h' successions = table_view h successions"
  by (induction successions) (auto simp: table_view_def)

lemma apply_bpe_at_refines:
  assumes "tokens \<notin> snd ` set successions" and "bpe_successions self = table_view h successions"
  shows "case apply_bpe self (h tokens) of
           Inl e \<Rightarrow> snd (apply_bpe_at self successions h tokens) = Inl e
         | Inr out \<Rightarrow> apply_bpe_at self successions h tokens = (h(tokens := out), Inr tokens)"
proof (cases "has_bpe self")
  case False
  then show ?thesis by (simp add: apply_bpe_def apply_bpe_at_def)
next
  case True
  have a: "agrees (apply_loop_at successions (length (h tokens) + 1) h tokens) h tokens
             (apply_loop (bpe_successions self) (length (h tokens) + 1) (h tokens))"
    using apply_loop_at_agrees [OF refl assms(2) [symmetric] assms(1)] .
  show ?thesis
  proof (cases "apply_loop (bpe_successions self) (length (h tokens) + 1) (h tokens)")
    case (Inl e)
    with a True show ?thesis
      by (auto simp: apply_bpe_def apply_bpe_at_def split: prod.splits dest: agrees_Inl)
  next
    case (Inr out)
    with a True show ?thesis
      by (auto simp: apply_bpe_def apply_bpe_at_def dest: agrees_Inr)
  qed
qed

lemma decompose_bpe_at_refines:
  assumes "decompose_bpe self (h tokens) = Some val"
  shows "\<exists>h'. decompose_bpe_at self h tokens =
           Some (h', case val of Inl e \<Rightarrow> Inl e | Inr out \<Rightarrow> Inr tokens) \<and>
         (\<forall>out. val = Inr out \<longrightarrow> h' = h(tokens := out))"
proof -
  from assms have "decompose_loop (vocab self) (h tokens) 0 = Some val"
    by (simp add: decompose_bpe_def)
  from decompose_loop_at_agrees [OF this, THEN spec [where x = h], THEN mp, OF refl]
  obtain r where r: "decompose_loop_at (vocab self) h tokens 0 = Some r"
    and a: "agrees r h tokens val" by blast
  obtain h' err where p: "r = (h', err)" by (cases r)
  show ?thesis
  proof (cases val)
    case (Inl e)
    with a p have "err = Some e" by (auto dest: agrees_Inl)
    with r p Inl show ?thesis by (simp add: decompose_bpe_at_def)
  next
    case (Inr out)
    with a p have "h' = h(tokens := out)" and "err = None" by (auto dest: agrees_Inr)
    with r p Inr show ?thesis by (simp add: decompose_bpe_at_def)
  qed
qed

text \<open>
  Two heaps for the scenario's learned wrapper, whose merge table \<open>{4: [0, 1]}\<close> keeps
  its succession list at address 1. In \<open>alias_heap\<close> the caller passes that very list
  to \<open>apply_bpe\<close>, and address 2 holds a sequence with a token the vocabulary lacks; in
  \<open>frame_heap\<close> the sequences at addresses 0 and 2 are lists of their own.
\<close>

definition alias_heap :: heap where
  "alias_heap = (\<lambda>a. [])(1 := [0, 1], 2 := [4, 99])"

definition frame_heap :: heap where
  "frame_heap = (\<lambda>a. [])(0 := [0, 1, 0, 1, 2], 1 := [0, 1], 2 := [4, 0, 1, 2])"

text \<open>
  C10, as stated: \<open>apply_bpe\<close> and \<open>decompose_bpe\<close> are pure, leave the merge table
  unchanged, and a sequence passed to them shows as changed nowhere but in the returned
  sequence. Passing the table's own succession list of token 4 to \<open>apply_bpe\<close> rewrites
  the table entry from \<open>[0, 1]\<close> to \<open>[4]\<close>; and \<open>decompose_bpe\<close> on \<open>[4, 99]\<close> raises
  \<open>KeyError\<close>, returning nothing, after it has rewritten the caller's list to
  \<open>[0, 1, 99]\<close>.
\<close>

theorem in_place_counterexample:
  "table_view alias_heap [(4, 1)] = bpe_successions scenario_learned \<and>
   table_view (fst (apply_bpe_at scenario_learned [(4, 1)] alias_heap 1)) [(4, 1)] = [(4, [4])] \<and>
   snd (apply_bpe_at scenario_learned [(4, 1)] alias_heap 1) = Inr 1 \<and>
   map_option (\<lambda>r. (fst r 2, snd r)) (decompose_bpe_at scenario_learned alias_heap 2) =
     Some ([0, 1, 99], Inl KeyError)"
  by code_simp

text \<open>
  C10, amended: \<open>apply_bpe\<close> and \<open>decompose_bpe\<close> only read the wrapper (flag,
  vocabulary, the dict \<open>bpe_successions\<close>) and write one object, the list they are
  given, in place; when they return, they return that same list. Every other list
  object is unchanged, so the merge table is unchanged whenever the list given is not
  one of the table's succession lists. (Lemmas \<open>apply_bpe_at_refines\<close> and
  \<open>decompose_bpe_at_refines\<close>: the list then holds what the functions on values
  compute.)
\<close>

theorem in_place_frame:
  "(apply_bpe_at self successions h tokens = (h', res) \<longrightarrow>
      (\<forall>a. a \<noteq> tokens \<longrightarrow> h' a = h a) \<and>
      (res = Inr tokens \<or> (\<exists>e. res = Inl e)) \<and>
      (tokens \<notin> snd ` set successions \<longrightarrow>
         table_view h' successions = table_view h successions)) \<and>
   (decompose_bpe_at self h tokens = Some (h', res) \<longrightarrow>
      (\<forall>a. a \<noteq> tokens \<longrightarrow> h' a = h a) \<and>
      (res = Inr tokens \<or> (\<exists>e. res = Inl e)) \<and>
      (tokens \<notin> snd ` set successions \<longrightarrow>
         table_view h' successions = table_view h successions))"
proof (intro conjI impI)
  assume a: "apply_bpe_at self successions h tokens = (h', res)"
  show f: "\<forall>a. a \<noteq> tokens \<longrightarrow> h' a = h a"
  proof (cases "has_bpe self")
    case False
    with a show ?thesis by (simp add: apply_bpe_at_def)
  next
    case True
    obtain h1 err1 where
      l: "apply_loop_at successions (length (h tokens) + 1) h tokens = (h1, err1)"
      by (cases "apply_loop_at successions (length (h tokens) + 1) h tokens")
    with a True have "h' = h1" by (simp add: apply_bpe_at_def)
    with apply_loop_at_frame [OF l] show ?thesis by simp
  qed
  show "res = Inr tokens \<or> (\<exists>e. res = Inl e)"
    using a by (auto simp: apply_bpe_at_def split: if_splits prod.splits option.splits)
  assume "tokens \<notin> snd ` set successions"
  with f show "table_view h' successions = table_view h successions"
    by (rule table_view_frame)
next
  assume d: "decompose_bpe_at self h tokens = Some (h', res)"
  then obtain err where
    l: "decompose_loop_at (vocab self) h tokens 0 = Some (h', err)"
    and r: "res = (case err of Some e \<Rightarrow> Inl e | None \<Rightarrow> Inr tokens)"
    by (auto simp: decompose_bpe_at_def split: option.splits prod.splits)
  from decompose_loop_at_frame [OF l] show f: "\<forall>a. a \<noteq> tokens \<longrightarrow> h' a = h a"
    by simp
  show "res = Inr tokens \<or> (\<exists>e. res = Inl e)"
    using r by (cases err) simp_all
  assume "tokens \<notin> snd ` set successions"
  with f show "table_view h' successions = table_view h successions"
    by (rule table_view_frame)
qed

theorem in_place_frame_witness:
  "fst (apply_bpe_at scenario_learned [(4, 1)] frame_heap 0) 0 = [4, 4, 2] \<and>
   snd (apply_bpe_at scenario_learned [(4, 1)] frame_heap 0) = Inr 0 \<and>
   table_view (fst (apply_bpe_at scenario_learned [(4, 1)] frame_heap 0)) [(4, 1)] =
     [(4, [0, 1])] \<and>
   map_option (\<lambda>r. (fst r 2, snd r)) (decompose_bpe_at scenario_learned frame_heap 2) =
     Some ([0, 1, 0, 1, 2], Inr 2)"
proof -
  obtain h' res where a: "apply_bpe_at scenario_learned [(4, 1)] frame_heap 0 = (h', res)"
    by (cases "apply_bpe_at scenario_learned [(4, 1)] frame_heap 0")
  have n: "(0::addr) \<notin> snd ` set [(4::token, 1::addr)]" by simp
  from in_place_frame [of scenario_learned "[(4, 1)]" frame_heap 0 h' res] a n
  have "table_view h' [(4, 1)] = table_view frame_heap [(4, 1)]"
    by blast
  moreover have "table_view frame_heap [(4, 1)] = [(4, [0, 1])]"
    by code_simp
  moreover have "fst (apply_bpe_at scenario_learned [(4, 1)] frame_heap 0) 0 = [4, 4, 2]"
    and "snd (apply_bpe_at scenario_learned [(4, 1)] frame_heap 0) = Inr 0"
    and "map_option (\<lambda>r. (fst r 2, snd r)) (decompose_bpe_at scenario_learned frame_heap 2) =
     Some ([0, 1, 0, 1, 2], Inr 2)"
    by code_simp+
  ultimately show ?thesis using a by simp
qed

end
